theory Spec2Isabelle
  imports Main "HOL-Library.Word"
begin

section \<open>Strings of the host language\<close>

text \<open>
  A source string is a sequence of code units; every comparison the parsers and the
  serializer make is against an ASCII character, so a string is modelled as a
  \<open>char list\<close> whose elements stand for code units below 256.
\<close>

definition slice :: "string \<Rightarrow> nat \<Rightarrow> nat \<Rightarrow> string" where
  \<comment> \<open>\<open>str.slice(a, b)\<close> for \<open>0 \<le> a\<close>, \<open>0 \<le> b\<close>; empty when \<open>b \<le> a\<close>.\<close>
  "slice s a b = take (b - a) (drop a s)"

fun join_with :: "char \<Rightarrow> string list \<Rightarrow> string" where
  \<comment> \<open>\<open>parts.join(d)\<close> for a one-character separator \<open>d\<close>.\<close>
  "join_with d [] = []"
| "join_with d [p] = p"
| "join_with d (p # q # ps) = p @ d # join_with d (q # ps)"

section \<open>Delimiter scanner\<close>

subsection \<open>\<open>splitTopLevel\<close> of the schema parser\<close>

record sp_state =
  sp_out :: "string list"
  sp_cur :: string
  sp_inString :: bool
  sp_escapeNext :: bool
  sp_paren :: int
  sp_bracket :: int
  sp_brace :: int

definition sp_init :: sp_state where
  "sp_init = \<lparr>sp_out = [], sp_cur = [], sp_inString = False, sp_escapeNext = False,
     sp_paren = 0, sp_bracket = 0, sp_brace = 0\<rparr>"

definition sp_step :: "char \<Rightarrow> char \<Rightarrow> sp_state \<Rightarrow> sp_state" where
  \<comment> \<open>One iteration of the loop body, for the character \<open>ch = s[i]\<close>.\<close>
  "sp_step delim ch st =
    (if sp_escapeNext st then st\<lparr>sp_cur := sp_cur st @ [ch], sp_escapeNext := False\<rparr>
     else if sp_inString st then
       (if ch = CHR 0x5C then st\<lparr>sp_cur := sp_cur st @ [ch], sp_escapeNext := True\<rparr>
        else if ch = CHR 0x22 then st\<lparr>sp_inString := False, sp_cur := sp_cur st @ [ch]\<rparr>
        else st\<lparr>sp_cur := sp_cur st @ [ch]\<rparr>)
     else if ch = CHR 0x22 then st\<lparr>sp_inString := True, sp_cur := sp_cur st @ [ch]\<rparr>
     else
       (let st1 =
          (if ch = CHR ''('' then st\<lparr>sp_paren := sp_paren st + 1\<rparr>
           else if ch = CHR '')'' then st\<lparr>sp_paren := max 0 (sp_paren st - 1)\<rparr>
           else if ch = CHR ''['' then st\<lparr>sp_bracket := sp_bracket st + 1\<rparr>
           else if ch = CHR '']'' then st\<lparr>sp_bracket := max 0 (sp_bracket st - 1)\<rparr>
           else if ch = CHR ''{'' then st\<lparr>sp_brace := sp_brace st + 1\<rparr>
           else if ch = CHR ''}'' then st\<lparr>sp_brace := max 0 (sp_brace st - 1)\<rparr>
           else st)
        in if ch = delim \<and> sp_paren st1 = 0 \<and> sp_bracket st1 = 0 \<and> sp_brace st1 = 0
           then st1\<lparr>sp_out := sp_out st1 @ [sp_cur st1], sp_cur := []\<rparr>
           else st1\<lparr>sp_cur := sp_cur st1 @ [ch]\<rparr>))"

definition schema_splitTopLevel :: "string \<Rightarrow> char \<Rightarrow> string list" where
  "schema_splitTopLevel s delim =
     (let st = fold (sp_step delim) s sp_init in sp_out st @ [sp_cur st])"

subsection \<open>\<open>splitTopLevel\<close> of the record parser\<close>

record rs_state =
  rs_parts :: "string list"
  rs_partStart :: nat
  rs_parenDepth :: int
  rs_bracketDepth :: int
  rs_braceDepth :: int
  rs_inString :: bool
  rs_escapeNext :: bool

definition rs_init :: rs_state where
  "rs_init = \<lparr>rs_parts = [], rs_partStart = 0, rs_parenDepth = 0, rs_bracketDepth = 0,
     rs_braceDepth = 0, rs_inString = False, rs_escapeNext = False\<rparr>"

definition rs_step :: "string \<Rightarrow> char \<Rightarrow> nat \<Rightarrow> rs_state \<Rightarrow> rs_state" where
  \<comment> \<open>One iteration of the loop body at index \<open>i < str.length\<close>; the depths are not clamped.\<close>
  "rs_step str delimiter i st =
    (let ch = str ! i in
     if rs_escapeNext st then st\<lparr>rs_escapeNext := False\<rparr>
     else if rs_inString st then
       (if ch = CHR 0x5C then st\<lparr>rs_escapeNext := True\<rparr>
        else if ch = CHR 0x22 then st\<lparr>rs_inString := False\<rparr>
        else st)
     else if ch = CHR 0x22 then st\<lparr>rs_inString := True\<rparr>
     else
       (let st1 =
          (if ch = CHR ''('' then st\<lparr>rs_parenDepth := rs_parenDepth st + 1\<rparr>
           else if ch = CHR '')'' then st\<lparr>rs_parenDepth := rs_parenDepth st - 1\<rparr>
           else if ch = CHR ''['' then st\<lparr>rs_bracketDepth := rs_bracketDepth st + 1\<rparr>
           else if ch = CHR '']'' then st\<lparr>rs_bracketDepth := rs_bracketDepth st - 1\<rparr>
           else if ch = CHR ''{'' then st\<lparr>rs_braceDepth := rs_braceDepth st + 1\<rparr>
           else if ch = CHR ''}'' then st\<lparr>rs_braceDepth := rs_braceDepth st - 1\<rparr>
           else st)
        in if ch = delimiter \<and> rs_parenDepth st1 = 0 \<and> rs_bracketDepth st1 = 0
              \<and> rs_braceDepth st1 = 0
           then st1\<lparr>rs_parts := rs_parts st1 @ [slice str (rs_partStart st1) i],
                     rs_partStart := i + 1\<rparr>
           else st1))"

definition record_splitTopLevel :: "string \<Rightarrow> char \<Rightarrow> string list" where
  "record_splitTopLevel str delimiter =
     (let st = fold (rs_step str delimiter) [0 ..< length str] rs_init
      in rs_parts st @ [drop (rs_partStart st) str])"

definition rs_inv :: "string \<Rightarrow> char \<Rightarrow> nat \<Rightarrow> rs_state \<Rightarrow> bool" where
  \<comment> \<open>Loop invariant of the record splitter after \<open>k\<close> iterations.\<close>
  "rs_inv str d k st \<longleftrightarrow>
     rs_partStart st \<le> k \<and>
     join_with d (rs_parts st @ [slice str (rs_partStart st) k]) = take k str"

section \<open>Errors, values and the schema model\<close>

datatype MaxiErrorCode =
    UnsupportedVersionError | DuplicateTypeError | UnknownTypeError | UnknownDirectiveError
  | InvalidSyntaxError | SchemaMismatchError | TypeMismatchError | ConstraintViolationError
  | UnresolvedReferenceError | CircularInheritanceError | MissingRequiredFieldError
  | InvalidConstraintValueError | UndefinedParentError | ConstraintSyntaxError
  | ArraySyntaxError | DuplicateIdentifierError | UnsupportedBinaryFormatError
  | InvalidDefaultValueError | StreamError | SchemaLoadError

text \<open>
  A thrown \<open>MaxiError\<close> is a value: its code and the line it carries (the message text
  and the file name are not modelled). A warning pushed onto the result is the same pair.
\<close>

datatype maxi_error = MaxiError (err_code: MaxiErrorCode) (err_line: "nat option")

datatype warning = Warning (warn_code: MaxiErrorCode) (warn_line: "nat option")

text \<open>
  Values stored in records. A number is an IEEE binary64 value. Every finite binary64
  value is a finite decimal: \<open>JNum m k\<close> is the number \<open>m / 10 ^ k\<close>, kept in lowest terms
  (\<open>k = 0\<close> or \<open>m\<close> not divisible by ten), so that equal numbers are equal terms, and
  \<open>JNum 0 0\<close> is \<open>+0\<close>. \<open>JNegZero\<close> is \<open>-0\<close> and \<open>JInf neg\<close> is \<open>Infinity\<close> or \<open>-Infinity\<close>.
  \<open>JObj\<close> lists the own properties of a plain object in the order in which the
  language enumerates them.
\<close>

datatype jsval =
    JNull | JBool bool | JNum int nat | JNegZero | JInf bool | JStr string | JArr "jsval list"
  | JObj "(string \<times> jsval) list"

datatype constraint =
    Required | Id | Comparison string jsval | Pattern string | Mime "string list"
  | ExactLength nat | DecimalPrecision string

record MaxiFieldDef =
  f_name :: string
  f_typeExpr :: "string option"
  f_annotation :: "string option"
  f_constraints :: "constraint list option"
  f_defaultValue :: "string option"

record MaxiTypeDef =
  t_alias :: string
  t_name :: "string option"
  t_parents :: "string list"
  t_fields :: "MaxiFieldDef list"
  t_inheritanceResolved :: bool

text \<open>
  \<open>MaxiSchema.types\<close> is an insertion-ordered \<open>Map\<close>: an association list read with
  \<open>map_of\<close>. \<open>s_nameToAlias\<close> is the index that \<open>buildNameIndex\<close> attaches together
  with \<open>resolveTypeAlias\<close>; it is \<open>None\<close> as long as no schema text has been parsed.
\<close>

record MaxiSchema =
  s_version :: string
  s_mode :: string
  s_imports :: "string list"
  s_types :: "(string \<times> MaxiTypeDef) list"
  s_nameToAlias :: "(string \<times> string) list option"

definition new_MaxiSchema :: MaxiSchema where
  \<comment> \<open>The schema of a fresh parse result.\<close>
  "new_MaxiSchema = \<lparr>s_version = ''1.0.0'', s_mode = ''lax'', s_imports = [], s_types = [],
     s_nameToAlias = None\<rparr>"

definition getType :: "MaxiSchema \<Rightarrow> string \<Rightarrow> MaxiTypeDef option" where
  "getType sch alias = map_of (s_types sch) alias"

definition isRequired :: "MaxiFieldDef \<Rightarrow> bool" where
  "isRequired f = (case f_constraints f of None \<Rightarrow> False | Some cs \<Rightarrow> Required \<in> set cs)"

section \<open>Character classes\<close>

definition is_digit :: "char \<Rightarrow> bool" where
  \<comment> \<open>\<open>\d\<close>, and the test \<open>cc >= 48 && cc <= 57\<close> on a char code.\<close>
  "is_digit c \<longleftrightarrow> 48 \<le> (of_char c :: nat) \<and> (of_char c :: nat) \<le> 57"

definition js_ws :: "char \<Rightarrow> bool" where
  \<comment> \<open>\<open>\s\<close> and the characters removed by \<open>trim()\<close>, among code units below 256.\<close>
  "js_ws c \<longleftrightarrow> (of_char c :: nat) \<in> {9, 10, 11, 12, 13, 32, 160}"

definition js_trim :: "string \<Rightarrow> string" where
  "js_trim s = rev (dropWhile js_ws (rev (dropWhile js_ws s)))"

section \<open>The version directive\<close>

definition re_digits1 :: "string \<Rightarrow> string option" where
  \<comment> \<open>\<open>\d+\<close> at the head of the string; returns what follows the digits.\<close>
  "re_digits1 s = (if takeWhile is_digit s = [] then None else Some (dropWhile is_digit s))"

definition semver_test :: "string \<Rightarrow> bool" where
  \<comment> \<open>\<open>/^\d+\.\d+\.\d+$/.test(value)\<close>: each \<open>\d+\<close> is followed by a non-digit or the
     end, so the greedy scan decides the match.\<close>
  "semver_test v =
     (case re_digits1 v of None \<Rightarrow> False
      | Some r1 \<Rightarrow> (case r1 of [] \<Rightarrow> False
         | c1 # r2 \<Rightarrow> c1 = CHR ''.'' \<and>
           (case re_digits1 r2 of None \<Rightarrow> False
            | Some r3 \<Rightarrow> (case r3 of [] \<Rightarrow> False
               | c2 # r4 \<Rightarrow> c2 = CHR ''.'' \<and>
                 (case re_digits1 r4 of None \<Rightarrow> False | Some r5 \<Rightarrow> r5 = [])))))"

definition parseVersionDirective :: "string \<Rightarrow> nat \<Rightarrow> MaxiSchema \<Rightarrow> maxi_error + MaxiSchema" where
  "parseVersionDirective v lineNumber sch =
     (if \<not> semver_test v then Inl (MaxiError InvalidSyntaxError (Some lineNumber))
      else if v \<noteq> ''1.0.0'' then Inl (MaxiError UnsupportedVersionError (Some lineNumber))
      else Inr (sch\<lparr>s_version := v\<rparr>))"

definition semver_shape :: "string \<Rightarrow> bool" where
  \<comment> \<open>The language of \<open>\d+\.\d+\.\d+\<close>, as the specification words it.\<close>
  "semver_shape v \<longleftrightarrow>
     (\<exists>a b c. v = a @ ''.'' @ b @ ''.'' @ c \<and> a \<noteq> [] \<and> b \<noteq> [] \<and> c \<noteq> [] \<and>
        list_all is_digit a \<and> list_all is_digit b \<and> list_all is_digit c)"

section \<open>String quoting in the serializer and unquoting in the record parser\<close>

definition replace_char :: "char \<Rightarrow> string \<Rightarrow> string \<Rightarrow> string" where
  \<comment> \<open>\<open>str.replace(/x/g, r)\<close> for a one-character pattern.\<close>
  "replace_char x r s = concat (map (\<lambda>c. if c = x then r else [c]) s)"

fun replace_pair :: "char \<Rightarrow> char \<Rightarrow> char \<Rightarrow> string \<Rightarrow> string" where
  \<comment> \<open>\<open>str.replace(/ab/g, r)\<close> for a two-character pattern: leftmost matches, not
     overlapping.\<close>
  "replace_pair a b r (x # y # zs) =
     (if x = a \<and> y = b then r # replace_pair a b r zs else x # replace_pair a b r (y # zs))"
| "replace_pair a b r zs = zs"

definition needsQuoting :: "string \<Rightarrow> bool" where
  \<comment> \<open>\<open>/[|()\[\]{}~,:]|\s/.test(str)\<close>\<close>
  "needsQuoting str = list_ex (\<lambda>c. c \<in> set ''|()[]{}~,:'' \<or> js_ws c) str"

definition escapeString :: "string \<Rightarrow> string" where
  "escapeString str =
     replace_char (CHR 0x09) [CHR 0x5C, CHR ''t'']
       (replace_char (CHR 0x0D) [CHR 0x5C, CHR ''r'']
         (replace_char (CHR 0x0A) [CHR 0x5C, CHR ''n'']
           (replace_char (CHR 0x22) [CHR 0x5C, CHR 0x22]
             (replace_char (CHR 0x5C) [CHR 0x5C, CHR 0x5C] str))))"

definition dumpString :: "string \<Rightarrow> string" where
  \<comment> \<open>The string case of \<open>dumpValue\<close>.\<close>
  "dumpString v = (if needsQuoting v then CHR 0x22 # escapeString v @ [CHR 0x22] else v)"

definition parseQuotedString :: "string \<Rightarrow> string" where
  \<comment> \<open>\<open>str.slice(1, -1)\<close>, then the five replacements in the order of the source.\<close>
  "parseQuotedString str =
     replace_pair (CHR 0x5C) (CHR 0x5C) (CHR 0x5C)
       (replace_pair (CHR 0x5C) (CHR 0x22) (CHR 0x22)
         (replace_pair (CHR 0x5C) (CHR ''t'') (CHR 0x09)
           (replace_pair (CHR 0x5C) (CHR ''r'') (CHR 0x0D)
             (replace_pair (CHR 0x5C) (CHR ''n'') (CHR 0x0A) (butlast (tl str))))))"

section \<open>Facts about the splitters used by the termination proofs\<close>

lemma join_with_snoc:
  "join_with d (ps @ [p, q]) = join_with d (ps @ [p]) @ d # q"
  by (induction ps rule: join_with.induct) auto

lemma join_with_snoc_char:
  "join_with d (ps @ [p @ [c]]) = join_with d (ps @ [p]) @ [c]"
  by (induction ps rule: join_with.induct) auto

lemma join_with_snoc_empty:
  "join_with d (ps @ [p, []]) = join_with d (ps @ [p]) @ [d]"
  by (simp add: join_with_snoc)

lemma sp_step_join:
  "join_with d (sp_out (sp_step d ch st) @ [sp_cur (sp_step d ch st)])
     = join_with d (sp_out st @ [sp_cur st]) @ [ch]"
  by (simp add: sp_step_def Let_def join_with_snoc_char join_with_snoc_empty)

lemma sp_fold_join:
  "join_with d (sp_out (fold (sp_step d) s st) @ [sp_cur (fold (sp_step d) s st)])
     = join_with d (sp_out st @ [sp_cur st]) @ s"
proof (induction s arbitrary: st)
  case Nil
  show ?case by simp
next
  case (Cons c cs)
  show ?case using Cons [of "sp_step d c st"] by (simp add: sp_step_join)
qed

lemma schema_split_lossless: "join_with d (schema_splitTopLevel s d) = s"
  using sp_fold_join [of d s sp_init]
  by (simp add: schema_splitTopLevel_def Let_def sp_init_def)

lemma slice_snoc:
  "a \<le> i \<Longrightarrow> i < length s \<Longrightarrow> slice s a (Suc i) = slice s a i @ [s ! i]"
  by (simp add: slice_def Suc_diff_le take_Suc_conv_app_nth)

lemma slice_empty: "slice s a a = []"
  by (simp add: slice_def)

lemma rs_step_inv:
  assumes "i < length str" and "rs_inv str d i st"
  shows "rs_inv str d (Suc i) (rs_step str d i st)"
proof -
  from assms have le: "rs_partStart st \<le> i"
    and eq: "join_with d (rs_parts st @ [slice str (rs_partStart st) i]) = take i str"
    by (simp_all add: rs_inv_def)
  have grow: "join_with d (rs_parts st @ [slice str (rs_partStart st) (Suc i)])
                = take (Suc i) str"
    using le eq assms(1)
    by (simp add: slice_snoc join_with_snoc_char take_Suc_conv_app_nth)
  have cut: "str ! i = d \<Longrightarrow>
      join_with d (rs_parts st @ [slice str (rs_partStart st) i, []]) = take (Suc i) str"
    using eq assms(1) by (simp add: join_with_snoc_empty take_Suc_conv_app_nth)
  show ?thesis
    using le grow cut
    by (auto simp add: rs_inv_def rs_step_def Let_def slice_empty)
qed

lemma rs_fold_inv:
  "k \<le> length str \<Longrightarrow> rs_inv str d k (fold (rs_step str d) [0 ..< k] rs_init)"
proof (induction k)
  case 0
  show ?case by (simp add: rs_inv_def rs_init_def slice_def)
next
  case (Suc k)
  then show ?case by (simp add: rs_step_inv)
qed

lemma record_split_lossless: "join_with d (record_splitTopLevel s d) = s"
  using rs_fold_inv [of "length s" s d]
  by (simp add: record_splitTopLevel_def Let_def rs_inv_def slice_def)

section \<open>Numbers of the host language\<close>

text \<open>
  \<open>parseInt\<close> and \<open>parseFloat\<close> return the Number value of a decimal numeral: the binary64
  value nearest to it, ties going to the even significand, \<open>Infinity\<close> from
  \<open>2 ^ 1024 - 2 ^ 970\<close> on. The language prescribes this value for numerals of at most
  twenty significant digits and allows it for longer ones (where an engine may also round
  a twenty-digit approximation); the model takes it throughout. \<open>binary64 neg num den\<close>
  is the Number value of the fraction \<open>num / den\<close> with the sign \<open>neg\<close>, for \<open>0 \<le> num\<close> and
  \<open>0 < den\<close>. All arithmetic is on unbounded integers.
\<close>

function bitlen :: "int \<Rightarrow> nat" where
  \<comment> \<open>The number of binary digits: \<open>2 ^ (bitlen n - 1) \<le> n < 2 ^ bitlen n\<close> for \<open>0 < n\<close>.\<close>
  "bitlen n = (if n \<le> 0 then 0 else Suc (bitlen (n div 2)))"
  by pat_completeness auto
termination by (relation "measure nat") auto

declare bitlen.simps [simp del]

definition scale2 :: "int \<Rightarrow> int \<Rightarrow> int \<Rightarrow> int \<times> int" where
  \<comment> \<open>The fraction \<open>num / den\<close> divided by \<open>2 ^ q\<close>.\<close>
  "scale2 num den q = (if 0 \<le> q then (num, den * 2 ^ nat q) else (num * 2 ^ nat (- q), den))"

definition floor_log2 :: "int \<Rightarrow> int \<Rightarrow> int" where
  \<comment> \<open>The \<open>e\<close> with \<open>2 ^ e \<le> num / den < 2 ^ (e + 1)\<close>.\<close>
  "floor_log2 num den =
     (let e0 = int (bitlen num) - int (bitlen den);
          (n, d) = scale2 num den e0
      in if d \<le> n then e0 else e0 - 1)"

definition round_half_even :: "int \<Rightarrow> int \<Rightarrow> int" where
  \<comment> \<open>The integer nearest to \<open>n / d\<close>, the even one of two.\<close>
  "round_half_even n d =
     (let q = n div d; r = n mod d
      in if 2 * r < d then q else if d < 2 * r then q + 1 else if even q then q else q + 1)"

fun strip2 :: "int \<Rightarrow> nat \<Rightarrow> int \<times> nat" where
  \<comment> \<open>\<open>s / 2 ^ j\<close> in lowest terms.\<close>
  "strip2 s 0 = (s, 0)"
| "strip2 s (Suc j) = (if odd s then (s, Suc j) else strip2 (s div 2) j)"

definition finite64 :: "bool \<Rightarrow> int \<Rightarrow> int \<Rightarrow> jsval" where
  \<comment> \<open>The value \<open>sig * 2 ^ q\<close> as a decimal: \<open>s / 2 ^ j = s * 5 ^ j / 10 ^ j\<close>.\<close>
  "finite64 neg sig q =
     (if 0 \<le> q then JNum ((if neg then - 1 else 1) * (sig * 2 ^ nat q)) 0
      else (let (s, j) = strip2 sig (nat (- q))
            in JNum ((if neg then - 1 else 1) * (s * 5 ^ j)) j))"

definition binary64 :: "bool \<Rightarrow> int \<Rightarrow> int \<Rightarrow> jsval" where
  \<comment> \<open>The significand has 53 bits, fewer below \<open>2 ^ - 1022\<close>, where the exponent stays
     at \<open>- 1074\<close>.\<close>
  "binary64 neg num den =
     (if num = 0 then (if neg then JNegZero else JNum 0 0)
      else
        (let q = max (floor_log2 num den - 52) (- 1074);
             (n, d) = scale2 num den q;
             sig = round_half_even n d
         in if sig = 0 then (if neg then JNegZero else JNum 0 0)
            else if 971 < q \<or> (q = 971 \<and> 2 ^ 53 \<le> sig) then JInf neg
            else finite64 neg sig q))"

text \<open>
  \<open>String(x)\<close> of a Number: the shortest digit string \<open>s\<close> with \<open>s * 10 ^ (n - k)\<close> rounding
  to \<open>x\<close>, the one nearest to \<open>x\<close> if several have that length (the even one of two),
  written plainly for \<open>- 6 < n \<le> 21\<close> and with an exponent otherwise. Seventeen digits
  always suffice for a binary64 value.
\<close>

function declen :: "int \<Rightarrow> nat" where
  \<comment> \<open>The number of decimal digits.\<close>
  "declen n = (if n \<le> 0 then 0 else Suc (declen (n div 10)))"
  by pat_completeness auto
termination by (relation "measure nat") auto

declare declen.simps [simp del]

function int_str :: "int \<Rightarrow> string" where
  \<comment> \<open>The decimal digits of an integer that is not negative.\<close>
  "int_str n = (if n < 10 then [char_of (48 + nat n)]
                else int_str (n div 10) @ [char_of (48 + nat (n mod 10))])"
  by pat_completeness auto
termination by (relation "measure nat") auto

declare int_str.simps [simp del]

definition scale10 :: "int \<Rightarrow> int \<Rightarrow> int \<Rightarrow> int \<times> int" where
  \<comment> \<open>The fraction \<open>num / den\<close> times \<open>10 ^ e\<close>.\<close>
  "scale10 num den e = (if 0 \<le> e then (num * 10 ^ nat e, den) else (num, den * 10 ^ nat (- e)))"

definition rounds_to :: "int \<Rightarrow> nat \<Rightarrow> int \<Rightarrow> int \<Rightarrow> bool" where
  \<comment> \<open>\<open>s * 10 ^ e\<close> has the Number value \<open>m / 10 ^ k\<close>.\<close>
  "rounds_to m k s e = (let (sn, sd) = scale10 s 1 e in binary64 False sn sd = JNum m k)"

definition digits_at :: "int \<Rightarrow> nat \<Rightarrow> int \<Rightarrow> nat \<Rightarrow> int option" where
  \<comment> \<open>The best \<open>s\<close> of \<open>kk\<close> digits for \<open>x = m / 10 ^ k\<close>, where \<open>10 ^ (n0 - 1) \<le> x < 10 ^ n0\<close>:
     one of the two integers around \<open>x / 10 ^ (n0 - kk)\<close>, if one of them rounds to \<open>x\<close>.\<close>
  "digits_at m k n0 kk =
     (let e = n0 - int kk;
          (yn, yd) = scale10 m (10 ^ k) (- e);
          lo = yn div yd;
          hi = lo + 1;
          okl = rounds_to m k lo e;
          okh = rounds_to m k hi e
      in if okl \<and> okh then
           (if 2 * yn < (2 * lo + 1) * yd then Some lo
            else if (2 * lo + 1) * yd < 2 * yn then Some hi
            else if even lo then Some lo else Some hi)
         else if okl then Some lo
         else if okh then Some hi
         else None)"

fun shortest :: "int \<Rightarrow> nat \<Rightarrow> int \<Rightarrow> nat \<Rightarrow> nat \<Rightarrow> int \<times> nat" where
  \<comment> \<open>The search from \<open>kk\<close> digits upwards; the last argument bounds the number of tries.\<close>
  "shortest m k n0 kk 0 = (m, declen m)"
| "shortest m k n0 kk (Suc tries) =
     (case digits_at m k n0 kk of
        Some s \<Rightarrow> (s, kk)
      | None \<Rightarrow> shortest m k n0 (Suc kk) tries)"

definition number_to_string :: "int \<Rightarrow> nat \<Rightarrow> string" where
  \<comment> \<open>\<open>Number::toString\<close> of the positive finite value \<open>m / 10 ^ k\<close>.\<close>
  "number_to_string m k =
     (let n0 = int (declen m) - int k;
          (s, kk) = shortest m k n0 1 17;
          ds0 = int_str s;
          n = n0 + (int (length ds0) - int kk);
          ds = rev (dropWhile (\<lambda>c. c = CHR ''0'') (rev ds0));
          kd = int (length ds)
      in if kd \<le> n \<and> n \<le> 21 then ds @ replicate (nat (n - kd)) (CHR ''0'')
         else if 0 < n \<and> n \<le> 21 then take (nat n) ds @ ''.'' @ drop (nat n) ds
         else if - 6 < n \<and> n \<le> 0 then ''0.'' @ replicate (nat (- n)) (CHR ''0'') @ ds
         else
           (let e = n - 1;
                es = (if e < 0 then ''-'' else ''+'') @ int_str \<bar>e\<bar>
            in if kd = 1 then ds @ ''e'' @ es
               else [hd ds] @ ''.'' @ tl ds @ ''e'' @ es))"

section \<open>Record parser: coercion of value tokens\<close>

type_synonym 'a res = "maxi_error + ('a \<times> warning list)"

fun mapM_res :: "('a \<Rightarrow> 'b res) \<Rightarrow> 'a list \<Rightarrow> ('b list) res" where
  "mapM_res f [] = Inr ([], [])"
| "mapM_res f (x # xs) =
     (case f x of Inl e \<Rightarrow> Inl e
      | Inr (v, ws) \<Rightarrow>
          (case mapM_res f xs of Inl e \<Rightarrow> Inl e
           | Inr (vs, ws') \<Rightarrow> Inr (v # vs, ws @ ws')))"

lemma mapM_res_cong [fundef_cong]:
  "xs = ys \<Longrightarrow> (\<And>x. x \<in> set ys \<Longrightarrow> f x = g x) \<Longrightarrow> mapM_res f xs = mapM_res g ys"
  by (induction ys arbitrary: xs) (auto split: sum.splits prod.splits)

definition fast_ws :: "char \<Rightarrow> bool" where
  "fast_ws c \<longleftrightarrow> (of_char c :: nat) \<in> {32, 9, 10, 13}"

definition fastTrim :: "string \<Rightarrow> string" where
  "fastTrim s = rev (dropWhile fast_ws (rev (dropWhile fast_ws s)))"

fun js_split :: "char \<Rightarrow> string \<Rightarrow> string list" where
  "js_split d [] = [[]]"
| "js_split d (c # cs) =
     (if c = d then [] # js_split d cs
      else (case js_split d cs of p # ps \<Rightarrow> (c # p) # ps | [] \<Rightarrow> [[c]]))"

definition detectNumberKind :: "string \<Rightarrow> nat" where
  "detectNumberKind s =
     (if s = [] then 0
      else if hd s = CHR ''-'' \<and> length s = 1 then 0
      else
        (let body = (if hd s = CHR ''-'' then tl s else s) in
         if \<not> is_digit (hd body) then 0
         else
           (let r = dropWhile is_digit body in
            if r = [] then 1
            else if hd r \<noteq> CHR ''.'' then 0
            else if tl r = [] then 3
            else if \<not> is_digit (hd (tl r)) then 0
            else if list_all is_digit (tl r) then 2 else 0)))"

definition digit_val :: "char \<Rightarrow> int" where
  "digit_val c = int (of_char c) - 48"

definition digits_val :: "string \<Rightarrow> int" where
  \<comment> \<open>The integer that a string of digits denotes.\<close>
  "digits_val ds = foldl (\<lambda>a c. 10 * a + digit_val c) 0 ds"

definition parseInt10 :: "string \<Rightarrow> jsval" where
  \<comment> \<open>\<open>parseInt(s, 10)\<close> on an optional minus sign and digits; what follows the digits is
     not read.\<close>
  "parseInt10 s =
     (let neg = (s \<noteq> [] \<and> hd s = CHR ''-'');
          body = (if neg then tl s else s)
      in binary64 neg (digits_val (takeWhile is_digit body)) 1)"

definition parseFloat_dec :: "string \<Rightarrow> jsval" where
  \<comment> \<open>\<open>parseFloat(s)\<close> on an optional minus sign, digits, and possibly a dot and digits.\<close>
  "parseFloat_dec s =
     (let neg = (s \<noteq> [] \<and> hd s = CHR ''-'');
          body = (if neg then tl s else s);
          ip = takeWhile is_digit body;
          r = dropWhile is_digit body;
          fp = (if r \<noteq> [] \<and> hd r = CHR ''.'' then takeWhile is_digit (tl r) else [])
      in binary64 neg (digits_val (ip @ fp)) (10 ^ length fp))"

fun b64_scan :: "nat \<Rightarrow> string \<Rightarrow> bool" where
  "b64_scan pad [] = (pad \<le> 2)"
| "b64_scan pad (c # cs) =
     (if c = CHR ''='' then b64_scan (pad + 1) cs
      else if pad > 0 then False
      else if (65 \<le> (of_char c :: nat) \<and> (of_char c :: nat) \<le> 90)
            \<or> (97 \<le> (of_char c :: nat) \<and> (of_char c :: nat) \<le> 122)
            \<or> (48 \<le> (of_char c :: nat) \<and> (of_char c :: nat) \<le> 57)
            \<or> c = CHR ''+'' \<or> c = CHR ''/'' then b64_scan pad cs
      else False)"

definition looksLikeBase64 :: "string \<Rightarrow> bool" where
  "looksLikeBase64 s = (s \<noteq> [] \<and> b64_scan 0 s)"

record cs_state =
  cs_done :: "string list"
  cs_cur :: string
  cs_depth :: int
  cs_inString :: bool
  cs_escapeNext :: bool

definition cs_init :: cs_state where
  "cs_init = \<lparr>cs_done = [], cs_cur = [], cs_depth = 0, cs_inString = False,
     cs_escapeNext = False\<rparr>"

definition cs_step :: "char \<Rightarrow> cs_state \<Rightarrow> cs_state" where
  "cs_step ch st =
    (if cs_escapeNext st then st\<lparr>cs_cur := cs_cur st @ [ch], cs_escapeNext := False\<rparr>
     else if ch = CHR 0x5C \<and> cs_inString st
       then st\<lparr>cs_cur := cs_cur st @ [ch], cs_escapeNext := True\<rparr>
     else if ch = CHR 0x22
       then st\<lparr>cs_inString := \<not> cs_inString st, cs_cur := cs_cur st @ [ch]\<rparr>
     else if \<not> cs_inString st then
       (let st1 =
          (if ch = CHR ''('' \<or> ch = CHR ''['' \<or> ch = CHR ''{''
             then st\<lparr>cs_depth := cs_depth st + 1\<rparr>
           else if ch = CHR '')'' \<or> ch = CHR '']'' \<or> ch = CHR ''}''
             then st\<lparr>cs_depth := cs_depth st - 1\<rparr>
           else st)
        in if ch = CHR '','' \<and> cs_depth st1 = 0
           then st1\<lparr>cs_done := cs_done st1 @ [cs_cur st1], cs_cur := []\<rparr>
           else st1\<lparr>cs_cur := cs_cur st1 @ [ch]\<rparr>)
     else st\<lparr>cs_cur := cs_cur st @ [ch]\<rparr>)"

definition cs_items :: "string \<Rightarrow> string list" where
  "cs_items content =
     (let st = fold cs_step content cs_init
      in map js_trim (cs_done st)
         @ (if js_trim (cs_cur st) \<noteq> [] then [js_trim (cs_cur st)] else []))"

fun findColon :: "nat \<Rightarrow> int \<Rightarrow> bool \<Rightarrow> bool \<Rightarrow> string \<Rightarrow> nat option" where
  "findColon i depth inString escapeNext [] = None"
| "findColon i depth inString escapeNext (ch # cs) =
     (if escapeNext then findColon (i + 1) depth inString False cs
      else if inString then
        (if ch = CHR 0x5C then findColon (i + 1) depth inString True cs
         else if ch = CHR 0x22 then findColon (i + 1) depth False False cs
         else findColon (i + 1) depth inString False cs)
      else if ch = CHR 0x22 then findColon (i + 1) depth True False cs
      else
        (let d = (if ch = CHR ''('' \<or> ch = CHR ''['' \<or> ch = CHR ''{'' then depth + 1
                  else if ch = CHR '')'' \<or> ch = CHR '']'' \<or> ch = CHR ''}''
                    then max 0 (depth - 1)
                  else depth)
         in if ch = CHR '':'' \<and> d = 0 then Some i
            else findColon (i + 1) d False False cs))"

definition line_term :: "char \<Rightarrow> bool" where
  "line_term c \<longleftrightarrow> c = CHR 0x0A \<or> c = CHR 0x0D"

definition re_array_suffix :: "string \<Rightarrow> string option" where
  "re_array_suffix t =
     (if 2 < length t \<and> drop (length t - 2) t = ''[]''
         \<and> \<not> list_ex line_term (take (length t - 2) t)
      then Some (take (length t - 2) t) else None)"

definition re_map_open :: "string \<Rightarrow> string option" where
  "re_map_open t =
     (if take 3 t = ''map'' then
        (case dropWhile js_ws (drop 3 t) of
           [] \<Rightarrow> None
         | c # r \<Rightarrow> if c = CHR ''<'' then Some r else None)
      else None)"

definition re_map_tail :: "string \<Rightarrow> bool" where
  "re_map_tail r = (case dropWhile js_ws r of [] \<Rightarrow> False
                    | c # rest \<Rightarrow> c = CHR ''>'' \<and> list_all js_ws rest)"

definition re_map_inner :: "string \<Rightarrow> string option" where
  "re_map_inner t =
     (case re_map_open t of None \<Rightarrow> None
      | Some r \<Rightarrow>
         (case [take n (drop k r).
                  k \<leftarrow> rev [0 ..< Suc (length (takeWhile js_ws r))],
                  n \<leftarrow> rev [1 ..< Suc (length (takeWhile (\<lambda>c. \<not> line_term c) (drop k r)))],
                  re_map_tail (drop (k + n) r)] of
            [] \<Rightarrow> None
          | m # _ \<Rightarrow> Some m))"

record mv_state =
  mv_parts :: "string list"
  mv_cur :: string
  mv_depth :: int
  mv_inString :: bool
  mv_prev :: "char option"

definition mv_step :: "char \<Rightarrow> mv_state \<Rightarrow> mv_state" where
  "mv_step ch st =
    (if mv_inString st then
       st\<lparr>mv_inString := \<not> (ch = CHR 0x22 \<and> mv_prev st \<noteq> Some (CHR 0x5C)),
          mv_cur := mv_cur st @ [ch], mv_prev := Some ch\<rparr>
     else if ch = CHR 0x22 then
       st\<lparr>mv_inString := True, mv_cur := mv_cur st @ [ch], mv_prev := Some ch\<rparr>
     else
       (let st1 = (if ch = CHR ''<'' then st\<lparr>mv_depth := mv_depth st + 1\<rparr>
                   else if ch = CHR ''>'' then st\<lparr>mv_depth := max 0 (mv_depth st - 1)\<rparr>
                   else st)
        in if ch = CHR '','' \<and> mv_depth st1 = 0
           then st1\<lparr>mv_parts := mv_parts st1 @ [js_trim (mv_cur st1)], mv_cur := [],
                     mv_prev := Some ch\<rparr>
           else st1\<lparr>mv_cur := mv_cur st1 @ [ch], mv_prev := Some ch\<rparr>))"

definition getMapValueType :: "string option \<Rightarrow> string option" where
  "getMapValueType typeExpr =
     (case typeExpr of None \<Rightarrow> None
      | Some te \<Rightarrow>
        if te = [] then None
        else if js_trim te = ''map'' then None
        else
          (case re_map_inner (js_trim te) of None \<Rightarrow> None
           | Some inside \<Rightarrow>
              (let st = fold mv_step inside
                          \<lparr>mv_parts = [], mv_cur = [], mv_depth = 0, mv_inString = False,
                           mv_prev = None\<rparr>;
                   parts = mv_parts st
                            @ (if js_trim (mv_cur st) \<noteq> [] then [js_trim (mv_cur st)] else [])
               in if parts = [] \<or> last parts = [] then None else Some (last parts))))"

definition getArrayElementType :: "string option \<Rightarrow> string option" where
  "getArrayElementType typeExpr =
     (case typeExpr of None \<Rightarrow> None
      | Some te \<Rightarrow>
        if te = [] then None
        else
          (case re_array_suffix (js_trim te) of None \<Rightarrow> None
           | Some m1 \<Rightarrow> if js_trim m1 = [] then None else Some (js_trim m1)))"

definition resolveTypeAlias :: "MaxiSchema \<Rightarrow> (string \<times> string) list \<Rightarrow> string option \<Rightarrow> string option"
  where
  "resolveTypeAlias sch idx x =
     (case x of None \<Rightarrow> None
      | Some a \<Rightarrow> if a = [] then None
                  else if map_of (s_types sch) a \<noteq> None then Some a
                  else map_of idx a)"

definition resolve_or_self :: "MaxiSchema \<Rightarrow> string option \<Rightarrow> string option" where
  "resolve_or_self sch x =
     (case s_nameToAlias sch of None \<Rightarrow> x
      | Some idx \<Rightarrow> (case resolveTypeAlias sch idx x of None \<Rightarrow> x | Some a \<Rightarrow> Some a))"

definition getInlineObjectTypeAlias :: "MaxiSchema \<Rightarrow> string option \<Rightarrow> string option" where
  "getInlineObjectTypeAlias sch typeExpr =
     (case typeExpr of None \<Rightarrow> None
      | Some te \<Rightarrow>
        if te = [] then None
        else
          (let t = js_trim te;
               base = (case re_array_suffix t of Some m1 \<Rightarrow> js_trim m1 | None \<Rightarrow> t)
           in if re_map_open base \<noteq> None then
                resolve_or_self sch
                  (case getMapValueType (Some base) of None \<Rightarrow> None
                   | Some mvt \<Rightarrow> Some (js_trim mvt))
              else if base \<in> set [''str'', ''int'', ''decimal'', ''bool'', ''bytes'', ''map'']
                then None
              else resolve_or_self sch (Some base)))"

fun nat_str :: "nat \<Rightarrow> string" where
  "nat_str n = (if n < 10 then [char_of (48 + n)] else nat_str (n div 10) @ [char_of (48 + n mod 10)])"

declare nat_str.simps [simp del]

fun js_String :: "jsval \<Rightarrow> string" where
  \<comment> \<open>\<open>String(v)\<close>\<close>
  "js_String JNull = ''null''"
| "js_String (JBool b) = (if b then ''true'' else ''false'')"
| "js_String (JNum m k) =
     (if m = 0 then ''0'' else (if m < 0 then ''-'' else []) @ number_to_string \<bar>m\<bar> k)"
| "js_String JNegZero = ''0''"
| "js_String (JInf neg) = (if neg then ''-Infinity'' else ''Infinity'')"
| "js_String (JStr s) = s"
| "js_String (JArr xs) =
     join_with (CHR '','') (map (\<lambda>x. if x = JNull then [] else js_String x) xs)"
| "js_String (JObj ps) = ''[object Object]''"

definition array_index :: "string \<Rightarrow> int option" where
  \<comment> \<open>The keys that an object enumerates first, in ascending order: the canonical
     numerals of the integers from \<open>0\<close> to \<open>2 ^ 32 - 2\<close>.\<close>
  "array_index k =
     (if k \<noteq> [] \<and> list_all is_digit k \<and> (k = ''0'' \<or> hd k \<noteq> CHR ''0'') \<and> length k \<le> 10
         \<and> digits_val k < 4294967295
      then Some (digits_val k) else None)"

fun insert_index :: "int \<Rightarrow> string \<Rightarrow> jsval \<Rightarrow> (string \<times> jsval) list \<Rightarrow> (string \<times> jsval) list"
  where
  \<comment> \<open>A new integer key goes after the smaller integer keys, before everything else.\<close>
  "insert_index i k v [] = [(k, v)]"
| "insert_index i k v ((k', v') # ps) =
     (case array_index k' of
        Some j \<Rightarrow> if j < i then (k', v') # insert_index i k v ps else (k, v) # (k', v') # ps
      | None \<Rightarrow> (k, v) # (k', v') # ps)"

definition obj_set :: "string \<Rightarrow> jsval \<Rightarrow> (string \<times> jsval) list \<Rightarrow> (string \<times> jsval) list" where
  \<comment> \<open>\<open>obj[k] = v\<close> on a plain object. An existing key keeps its place; a new key that is
     not an integer key goes last. Assigning to \<open>__proto__\<close> creates no own property.\<close>
  "obj_set k v ps =
     (if k = ''__proto__'' then ps
      else if k \<in> set (map fst ps) then map (\<lambda>(k', v'). if k' = k then (k', v) else (k', v')) ps
      else (case array_index k of
              Some i \<Rightarrow> insert_index i k v ps
            | None \<Rightarrow> ps @ [(k, v)]))"

definition typeExpr_fd :: "string \<Rightarrow> MaxiFieldDef" where
  "typeExpr_fd t = \<lparr>f_name = [], f_typeExpr = Some t, f_annotation = None,
     f_constraints = None, f_defaultValue = None\<rparr>"

definition default_or_null :: "MaxiFieldDef \<Rightarrow> jsval" where
  "default_or_null f = (case f_defaultValue f of Some d \<Rightarrow> JStr d | None \<Rightarrow> JNull)"

definition field_at :: "MaxiTypeDef option \<Rightarrow> nat \<Rightarrow> MaxiFieldDef option" where
  "field_at typeDef i =
     (case typeDef of None \<Rightarrow> None
      | Some td \<Rightarrow> if i < length (t_fields td) then Some (t_fields td ! i) else None)"

definition isSimple :: "string \<Rightarrow> bool" where
  "isSimple s \<longleftrightarrow> \<not> list_ex (\<lambda>c. c \<in> set [CHR 0x22, CHR ''('', CHR '')'', CHR ''['', CHR '']'', CHR ''{'', CHR ''}'']) s"

definition valueStrings :: "string \<Rightarrow> string list" where
  "valueStrings valuesStr =
     (if isSimple valuesStr then js_split (CHR ''|'') valuesStr
      else record_splitTopLevel valuesStr (CHR ''|''))"

definition backfill :: "MaxiFieldDef \<Rightarrow> jsval option \<Rightarrow> jsval" where
  "backfill field v =
     (case v of None \<Rightarrow> default_or_null field
      | Some x \<Rightarrow> if x = JStr [] then default_or_null field else x)"

definition scalarValue :: "MaxiSchema \<Rightarrow> string \<Rightarrow> MaxiFieldDef option \<Rightarrow> jsval" where
  "scalarValue sch valueStr fieldDef =
     (let typeExpr = (case fieldDef of None \<Rightarrow> ''str''
                      | Some f \<Rightarrow> (case f_typeExpr f of None \<Rightarrow> ''str'' | Some t \<Rightarrow> t));
          annotation = (case fieldDef of None \<Rightarrow> None | Some f \<Rightarrow> f_annotation f)
      in if s_mode sch \<noteq> ''strict'' \<and> typeExpr = ''bytes'' \<and> annotation = Some ''base64'' then
           (if looksLikeBase64 valueStr \<and> length valueStr mod 4 \<noteq> 0 then
              JStr (valueStr @ (if length valueStr mod 4 = 1 then ''===''
                                else if length valueStr mod 4 = 2 then ''=='' else ''=''))
            else JStr valueStr)
         else if typeExpr = ''bool'' then
           (if valueStr = ''1'' \<or> valueStr = ''true'' then JBool True
            else if valueStr = ''0'' \<or> valueStr = ''false'' then JBool False
            else JStr valueStr)
         else
           (let nk = detectNumberKind valueStr in
            if typeExpr = ''int'' then (if nk = 1 then parseInt10 valueStr else JStr valueStr)
            else if typeExpr = ''decimal'' then
              (if nk = 3 then parseInt10 (butlast valueStr)
               else if nk = 1 \<or> nk = 2 then parseFloat_dec valueStr
               else JStr valueStr)
            else if s_mode sch \<noteq> ''strict'' \<and> nk = 1 then parseInt10 valueStr
            else if s_mode sch \<noteq> ''strict'' \<and> nk = 2 then parseFloat_dec valueStr
            else if s_mode sch \<noteq> ''strict'' \<and> nk = 3 then parseInt10 (butlast valueStr)
            else JStr valueStr))"

lemma length_js_trim: "length (js_trim s) \<le> length s"
proof -
  have "length (dropWhile js_ws (rev (dropWhile js_ws s))) \<le> length (rev (dropWhile js_ws s))"
    by (rule length_dropWhile_le)
  also have "\<dots> \<le> length s" by (simp add: length_dropWhile_le)
  finally show ?thesis by (simp add: js_trim_def)
qed

lemma length_fastTrim: "length (fastTrim s) \<le> length s"
proof -
  have "length (dropWhile fast_ws (rev (dropWhile fast_ws s))) \<le> length (rev (dropWhile fast_ws s))"
    by (rule length_dropWhile_le)
  also have "\<dots> \<le> length s" by (simp add: length_dropWhile_le)
  finally show ?thesis by (simp add: fastTrim_def)
qed

lemma length_part_le_join: "p \<in> set ps \<Longrightarrow> length p \<le> length (join_with d ps)"
  by (induction ps rule: join_with.induct) auto

lemma js_split_nonempty: "js_split d s \<noteq> []"
  by (induction s) (auto split: list.splits)

lemma js_split_lossless: "join_with d (js_split d s) = s"
proof (induction s)
  case Nil
  show ?case by simp
next
  case (Cons c cs)
  obtain p ps where ps: "js_split d cs = p # ps"
    using js_split_nonempty [of d cs] by (cases "js_split d cs") auto
  show ?case
  proof (cases "c = d")
    case True
    then show ?thesis using Cons ps by simp
  next
    case False
    then show ?thesis using Cons ps by (cases ps) auto
  qed
qed

lemma cs_step_join:
  "join_with (CHR '','') (cs_done (cs_step ch st) @ [cs_cur (cs_step ch st)])
     = join_with (CHR '','') (cs_done st @ [cs_cur st]) @ [ch]"
  by (simp add: cs_step_def Let_def join_with_snoc_char join_with_snoc_empty)

lemma cs_fold_join:
  "join_with (CHR '','') (cs_done (fold cs_step s st) @ [cs_cur (fold cs_step s st)])
     = join_with (CHR '','') (cs_done st @ [cs_cur st]) @ s"
proof (induction s arbitrary: st)
  case Nil
  show ?case by simp
next
  case (Cons c cs)
  show ?case using Cons [of "cs_step c st"] by (simp add: cs_step_join)
qed

lemma cs_items_length:
  assumes "e \<in> set (cs_items content)"
  shows "length e \<le> length content"
proof -
  let ?st = "fold cs_step content cs_init"
  have j: "join_with (CHR '','') (cs_done ?st @ [cs_cur ?st]) = content"
    using cs_fold_join [of content cs_init] by (simp add: cs_init_def)
  from assms obtain p where p: "p \<in> set (cs_done ?st @ [cs_cur ?st])" and e: "e = js_trim p"
    by (auto simp: cs_items_def Let_def split: if_splits)
  have "length e \<le> length p" using e by (simp add: length_js_trim)
  also have "\<dots> \<le> length content" using length_part_le_join [OF p, of "CHR '',''"] j by simp
  finally show ?thesis .
qed

lemma valueStrings_length:
  assumes "raw \<in> set (valueStrings v)"
  shows "length raw \<le> length v"
proof (cases "isSimple v")
  case True
  then have "raw \<in> set (js_split (CHR ''|'') v)" using assms by (simp add: valueStrings_def)
  from length_part_le_join [OF this, of "CHR ''|''"] show ?thesis
    by (simp add: js_split_lossless)
next
  case False
  then have "raw \<in> set (record_splitTopLevel v (CHR ''|''))"
    using assms by (simp add: valueStrings_def)
  from length_part_le_join [OF this, of "CHR ''|''"] show ?thesis
    by (simp add: record_split_lossless)
qed

lemma valueStrings_Nil: "valueStrings [] = [[]]"
  by (simp add: valueStrings_def isSimple_def)

lemma inner_measure:
  "(if butlast (tl s) = [] then 1 else 4 * length (butlast (tl s)) + 8) < 4 * length s + (2::nat)"
proof (cases "butlast (tl s) = []")
  case True
  then show ?thesis by simp
next
  case False
  then have "1 \<le> length (butlast (tl s))" by (cases "butlast (tl s)") auto
  then have "length (butlast (tl s)) + 2 = length s" by simp
  then show ?thesis using False by simp
qed

function parseFieldValue :: "MaxiSchema \<Rightarrow> nat \<Rightarrow> string \<Rightarrow> MaxiFieldDef option \<Rightarrow> jsval res"
  and parseArray :: "MaxiSchema \<Rightarrow> nat \<Rightarrow> string \<Rightarrow> MaxiFieldDef option \<Rightarrow> jsval res"
  and parseMap :: "MaxiSchema \<Rightarrow> nat \<Rightarrow> string \<Rightarrow> MaxiFieldDef option \<Rightarrow> jsval res"
  and parseMapEntry :: "MaxiSchema \<Rightarrow> nat \<Rightarrow> string \<Rightarrow> MaxiFieldDef option \<Rightarrow> (string \<times> jsval) res"
  and parseInlineObject :: "MaxiSchema \<Rightarrow> nat \<Rightarrow> string \<Rightarrow> MaxiFieldDef option \<Rightarrow> jsval res"
  and parseFieldValues :: "MaxiSchema \<Rightarrow> nat \<Rightarrow> string \<Rightarrow> MaxiTypeDef option \<Rightarrow> (jsval list) res"
where
  "parseFieldValue sch lineNumber valueStr fieldDef =
     (if valueStr = [] then
        Inr (case fieldDef of None \<Rightarrow> JNull | Some f \<Rightarrow> default_or_null f, [])
      else if valueStr = ''~'' then Inr (JNull, [])
      else if hd valueStr = CHR ''['' \<and> last valueStr = CHR '']''
        then parseArray sch lineNumber valueStr fieldDef
      else if hd valueStr = CHR ''{'' \<and> last valueStr = CHR ''}''
        then parseMap sch lineNumber valueStr fieldDef
      else if hd valueStr = CHR ''('' \<and> last valueStr = CHR '')''
        then parseInlineObject sch lineNumber valueStr fieldDef
      else if hd valueStr = CHR 0x22 \<and> last valueStr = CHR 0x22
        then Inr (JStr (parseQuotedString valueStr), [])
      else Inr (scalarValue sch valueStr fieldDef, []))"
| "parseArray sch lineNumber arrayStr fieldDef =
     (let content = js_trim (butlast (tl arrayStr)) in
      if content = [] then Inr (JArr [], [])
      else
        (let elemFieldDef =
               (case getArrayElementType (case fieldDef of None \<Rightarrow> None | Some f \<Rightarrow> f_typeExpr f) of
                  None \<Rightarrow> None | Some elemType \<Rightarrow> Some (typeExpr_fd elemType))
         in case mapM_res (\<lambda>e. parseFieldValue sch lineNumber e elemFieldDef) (cs_items content) of
              Inl e \<Rightarrow> Inl e
            | Inr (elements, ws) \<Rightarrow> Inr (JArr elements, ws)))"
| "parseMap sch lineNumber mapStr fieldDef =
     (let content = js_trim (butlast (tl mapStr)) in
      if content = [] then Inr (JObj [], [])
      else
        (let valueFieldDef =
               (case getMapValueType (case fieldDef of None \<Rightarrow> None | Some f \<Rightarrow> f_typeExpr f) of
                  None \<Rightarrow> None | Some mapValueType \<Rightarrow> Some (typeExpr_fd mapValueType))
         in case mapM_res (\<lambda>e. parseMapEntry sch lineNumber e valueFieldDef) (cs_items content) of
              Inl e \<Rightarrow> Inl e
            | Inr (entries, ws) \<Rightarrow> Inr (JObj (fold (\<lambda>(k, v). obj_set k v) entries []), ws)))"
| "parseMapEntry sch lineNumber entryStr valueFieldDef =
     (case findColon 0 0 False False entryStr of
        None \<Rightarrow> Inl (MaxiError InvalidSyntaxError (Some lineNumber))
      | Some colonIndex \<Rightarrow>
          (case parseFieldValue sch lineNumber (js_trim (take colonIndex entryStr))
                  (Some (typeExpr_fd ''str'')) of
             Inl e \<Rightarrow> Inl e
           | Inr (key, ws) \<Rightarrow>
               (case parseFieldValue sch lineNumber (js_trim (drop (colonIndex + 1) entryStr))
                       valueFieldDef of
                  Inl e \<Rightarrow> Inl e
                | Inr (v, ws') \<Rightarrow> Inr ((js_String key, v), ws @ ws'))))"
| "parseInlineObject sch lineNumber objStr fieldDef =
     (let innerValuesStr = butlast (tl objStr);
          typeAlias = getInlineObjectTypeAlias sch
                        (case fieldDef of None \<Rightarrow> None | Some f \<Rightarrow> f_typeExpr f)
      in if typeAlias = None \<or> typeAlias = Some [] then
           (case parseFieldValues sch lineNumber innerValuesStr None of
              Inl e \<Rightarrow> Inl e
            | Inr (vs, ws) \<Rightarrow> Inr (JObj [(''values'', JArr vs)], ws))
         else
           (case getType sch (the typeAlias) of
              None \<Rightarrow>
                if s_mode sch = ''strict'' then Inl (MaxiError UnknownTypeError (Some lineNumber))
                else
                  (case parseFieldValues sch lineNumber innerValuesStr None of
                     Inl e \<Rightarrow> Inl e
                   | Inr (vs, ws) \<Rightarrow>
                       Inr (JObj [(''values'', JArr vs)],
                            Warning UnknownTypeError (Some lineNumber) # ws))
            | Some typeDef \<Rightarrow>
                (case parseFieldValues sch lineNumber innerValuesStr (Some typeDef) of
                   Inl e \<Rightarrow> Inl e
                 | Inr (vs, ws) \<Rightarrow>
                     Inr (JObj (fold (\<lambda>i. obj_set (f_name (t_fields typeDef ! i))
                                            (backfill (t_fields typeDef ! i)
                                               (if i < length vs then Some (vs ! i) else None)))
                                  [0 ..< length (t_fields typeDef)] []), ws))))"
| "parseFieldValues sch lineNumber valuesStr typeDef =
     (mapM_res (\<lambda>(i, raw). parseFieldValue sch lineNumber
                            (if isSimple valuesStr then raw else fastTrim raw) (field_at typeDef i))
        (enumerate 0 (valueStrings valuesStr)))"
  by pat_completeness auto

termination
proof (relation "measure (\<lambda>x. case x of
     Inl (Inl (sch, ln, s, fd)) \<Rightarrow> (if s = [] then 0 else 4 * length s + 3)
   | Inl (Inr (Inl (sch, ln, s, fd))) \<Rightarrow> 4 * length s + 2
   | Inl (Inr (Inr (sch, ln, s, fd))) \<Rightarrow> 4 * length s + 2
   | Inr (Inl (sch, ln, s, fd)) \<Rightarrow> 4 * length s + 4
   | Inr (Inr (Inl (sch, ln, s, fd))) \<Rightarrow> 4 * length s + 2
   | Inr (Inr (Inr (sch, ln, s, td))) \<Rightarrow> (if s = [] then 1 else 4 * length s + 8))",
   goal_cases)
  case 1
  show ?case by simp
next
  case 2
  then show ?case by simp
next
  case 3
  then show ?case by simp
next
  case 4
  then show ?case by simp
next
  case (5 sch lineNumber arrayStr fieldDef content elemFieldDef e)
  have "length e \<le> length content" using 5 cs_items_length by blast
  moreover have "length content \<le> length arrayStr - 2"
    using 5(1) length_js_trim [of "butlast (tl arrayStr)"] by simp
  moreover have "1 \<le> length content" using 5(2) by (cases content) auto
  ultimately have "length e + 2 \<le> length arrayStr" by arith
  then show ?case by simp
next
  case (6 sch lineNumber mapStr fieldDef content valueFieldDef e)
  have "length e \<le> length content" using 6 cs_items_length by blast
  moreover have "length content \<le> length mapStr - 2"
    using 6(1) length_js_trim [of "butlast (tl mapStr)"] by simp
  moreover have "1 \<le> length content" using 6(2) by (cases content) auto
  ultimately have "length e + 2 \<le> length mapStr" by arith
  then show ?case by simp
next
  case (7 sch lineNumber entryStr valueFieldDef colonIndex)
  have "length (js_trim (take colonIndex entryStr)) \<le> length entryStr"
    using length_js_trim [of "take colonIndex entryStr"] by simp
  then show ?case by simp
next
  case (8 sch lineNumber entryStr valueFieldDef colonIndex)
  have "length (js_trim (drop (colonIndex + 1) entryStr)) \<le> length entryStr"
    using length_js_trim [of "drop (colonIndex + 1) entryStr"] by simp
  then show ?case by simp
next
  case (9 sch lineNumber objStr)
  then show ?case using inner_measure [of objStr] by simp
next
  case (10 sch lineNumber objStr)
  then show ?case using inner_measure [of objStr] by simp
next
  case (11 sch lineNumber objStr)
  then show ?case using inner_measure [of objStr] by simp
next
  case (12 sch lineNumber valuesStr typeDef p i raw)
  then have raw: "raw \<in> set (valueStrings valuesStr)"
    by (auto simp: in_set_enumerate_eq)
  show ?case
  proof (cases "valuesStr = []")
    case True
    then show ?thesis using raw by (simp add: valueStrings_Nil isSimple_def)
  next
    case False
    have "length raw \<le> length valuesStr" using raw by (rule valueStrings_length)
    moreover have "length (fastTrim raw) \<le> length raw" by (rule length_fastTrim)
    ultimately show ?thesis using False by simp
  qed
qed

declare parseFieldValue.simps [simp del] parseArray.simps [simp del] parseMap.simps [simp del]
  parseMapEntry.simps [simp del] parseInlineObject.simps [simp del]
  parseFieldValues.simps [simp del]
section \<open>Record parser: one record against its type\<close>

record MaxiRecord =
  r_alias :: string
  r_values :: "jsval list"
  r_lineNumber :: nat

definition to_lower :: "char \<Rightarrow> char" where
  \<comment> \<open>\<open>toLowerCase\<close> on one code unit below 256.\<close>
  "to_lower c =
     (if (65 \<le> (of_char c :: nat) \<and> (of_char c :: nat) \<le> 90)
         \<or> (192 \<le> (of_char c :: nat) \<and> (of_char c :: nat) \<le> 222 \<and> (of_char c :: nat) \<noteq> 215)
      then char_of ((of_char c :: nat) + 32) else c)"

definition toLowerCase :: "string \<Rightarrow> string" where
  "toLowerCase s = map to_lower s"

fun findIndex :: "('a \<Rightarrow> bool) \<Rightarrow> 'a list \<Rightarrow> nat option" where
  \<comment> \<open>\<open>xs.findIndex(P)\<close>, with \<open>None\<close> for \<open>-1\<close>.\<close>
  "findIndex P [] = None"
| "findIndex P (x # xs) = (if P x then Some 0 else map_option Suc (findIndex P xs))"

definition inferredType :: "MaxiTypeDef \<Rightarrow> MaxiFieldDef \<Rightarrow> jsval" where
  \<comment> \<open>The value inferred for the \<open>type\<close> field \<open>typeFieldDef\<close> of \<open>typeDef\<close>.\<close>
  "inferredType typeDef typeFieldDef =
     (case f_defaultValue typeFieldDef of
        Some d \<Rightarrow> JStr d
      | None \<Rightarrow>
          (case t_name typeDef of
             Some n \<Rightarrow> if n \<noteq> [] then JStr (toLowerCase n) else JStr (toLowerCase (t_alias typeDef))
           | None \<Rightarrow> JStr (toLowerCase (t_alias typeDef))))"

definition patchType :: "MaxiSchema \<Rightarrow> MaxiTypeDef \<Rightarrow> jsval list \<Rightarrow> jsval list" where
  \<comment> \<open>The lax heuristic for the \<open>type\<close> field: \<open>splice(typeFieldIndex, 0, inferred)\<close>.\<close>
  "patchType sch typeDef vals =
     (if s_mode sch \<noteq> ''strict'' then
        (case findIndex (\<lambda>f. f_name f = ''type'') (t_fields typeDef) of
           None \<Rightarrow> vals
         | Some typeFieldIndex \<Rightarrow>
             if length vals + 1 = length (t_fields typeDef) then
               take typeFieldIndex vals
                 @ [inferredType typeDef (t_fields typeDef ! typeFieldIndex)]
                 @ drop typeFieldIndex vals
             else vals)
      else vals)"

definition missingBeyond :: "MaxiFieldDef list \<Rightarrow> nat \<Rightarrow> bool" where
  \<comment> \<open>The strict-mode loop over the fields at positions \<open>n, n + 1, \<dots>\<close>.\<close>
  "missingBeyond flds n = list_ex (\<lambda>f. isRequired f \<and> f_defaultValue f = None) (drop n flds)"

definition fillField :: "MaxiSchema \<Rightarrow> nat \<Rightarrow> MaxiFieldDef list \<Rightarrow> jsval list \<Rightarrow> nat \<Rightarrow> jsval res"
  where
  \<comment> \<open>One iteration of the back-fill loop, at field position \<open>i\<close>.\<close>
  "fillField sch lineNumber flds vals i =
     (let field = flds ! i;
          v = backfill field (if i < length vals then Some (vals ! i) else None)
      in if isRequired field \<and> v = JNull then
           (if s_mode sch = ''strict''
            then Inl (MaxiError MissingRequiredFieldError (Some lineNumber))
            else Inr (v, [Warning MissingRequiredFieldError (Some lineNumber)]))
         else Inr (v, []))"

definition parseSingleRecord :: "MaxiSchema \<Rightarrow> string \<Rightarrow> string \<Rightarrow> nat \<Rightarrow> MaxiRecord res" where
  "parseSingleRecord sch alias valuesStr lineNumber =
     (case getType sch alias of
        None \<Rightarrow>
          if s_mode sch = ''strict'' then Inl (MaxiError UnknownTypeError (Some lineNumber))
          else
            (case parseFieldValues sch lineNumber valuesStr None of
               Inl e \<Rightarrow> Inl e
             | Inr (vals, ws) \<Rightarrow>
                 Inr (\<lparr>r_alias = alias, r_values = vals, r_lineNumber = lineNumber\<rparr>,
                      Warning UnknownTypeError (Some lineNumber) # ws))
      | Some typeDef \<Rightarrow>
          (case parseFieldValues sch lineNumber valuesStr (Some typeDef) of
             Inl e \<Rightarrow> Inl e
           | Inr (vals0, ws) \<Rightarrow>
               (let vals = patchType sch typeDef vals0;
                    flds = t_fields typeDef
                in if s_mode sch = ''strict'' \<and> length vals < length flds
                      \<and> missingBeyond flds (length vals)
                     then Inl (MaxiError MissingRequiredFieldError (Some lineNumber))
                   else if s_mode sch = ''strict'' \<and> length vals > length flds
                     then Inl (MaxiError SchemaMismatchError (Some lineNumber))
                   else
                     (case mapM_res (fillField sch lineNumber flds vals) [0 ..< length flds] of
                        Inl e \<Rightarrow> Inl e
                      | Inr (finalValues, ws') \<Rightarrow>
                          Inr (\<lparr>r_alias = alias, r_values = finalValues,
                                r_lineNumber = lineNumber\<rparr>, ws @ ws')))))"

section \<open>Token shapes named by the specification\<close>

definition sign_str :: "string \<Rightarrow> bool" where
  "sign_str sg \<longleftrightarrow> sg = [] \<or> sg = ''-''"

definition digit_str :: "string \<Rightarrow> bool" where
  "digit_str ds \<longleftrightarrow> ds \<noteq> [] \<and> list_all is_digit ds"

definition signed :: "string \<Rightarrow> int \<Rightarrow> int" where
  "signed sg n = (if sg = ''-'' then - n else n)"

definition numeric_form :: "string \<Rightarrow> bool" where
  \<comment> \<open>An optional minus sign, digits, and then nothing, a dot, or a dot and digits.\<close>
  "numeric_form s \<longleftrightarrow>
     (\<exists>sg ds. sign_str sg \<and> digit_str ds \<and>
        (s = sg @ ds \<or> s = sg @ ds @ ''.'' \<or> (\<exists>fs. digit_str fs \<and> s = sg @ ds @ ''.'' @ fs)))"

definition wrapped :: "char \<Rightarrow> char \<Rightarrow> string \<Rightarrow> bool" where
  "wrapped a b s \<longleftrightarrow> s \<noteq> [] \<and> hd s = a \<and> last s = b"

definition scalar_token :: "string \<Rightarrow> bool" where
  \<comment> \<open>A token that \<open>parseFieldValue\<close> does not dispatch on its first and last character.\<close>
  "scalar_token s \<longleftrightarrow>
     s \<noteq> [] \<and> s \<noteq> ''~'' \<and> \<not> wrapped (CHR ''['') (CHR '']'') s \<and> \<not> wrapped (CHR ''{'') (CHR ''}'') s
       \<and> \<not> wrapped (CHR ''('') (CHR '')'') s \<and> \<not> wrapped (CHR 0x22) (CHR 0x22) s"

definition token :: "string \<Rightarrow> nat \<Rightarrow> string" where
  \<comment> \<open>The \<open>i\<close>-th value token of a record body, as \<open>parseFieldValues\<close> hands it to
     \<open>parseFieldValue\<close>.\<close>
  "token valuesStr i =
     (if isSimple valuesStr then valueStrings valuesStr ! i
      else fastTrim (valueStrings valuesStr ! i))"

definition filled :: "MaxiFieldDef list \<Rightarrow> jsval list \<Rightarrow> nat \<Rightarrow> jsval" where
  \<comment> \<open>The value the back-fill loop computes at field position \<open>i\<close>.\<close>
  "filled flds vals i = backfill (flds ! i) (if i < length vals then Some (vals ! i) else None)"

section \<open>Example schemas used by the witnesses\<close>

definition ex_field :: "string \<Rightarrow> string option \<Rightarrow> bool \<Rightarrow> string option \<Rightarrow> MaxiFieldDef" where
  \<comment> \<open>A field as \<open>parseField\<close> builds it: name, type expression, required or not, default.\<close>
  "ex_field n t req d = \<lparr>f_name = n, f_typeExpr = t, f_annotation = None,
     f_constraints = Some (if req then [Required] else []), f_defaultValue = d\<rparr>"

definition ex_U :: MaxiTypeDef where
  \<comment> \<open>\<open>U:User(id:int(!)|name)\<close>\<close>
  "ex_U = \<lparr>t_alias = ''U'', t_name = Some ''User'', t_parents = [],
     t_fields = [ex_field ''id'' (Some ''int'') True None, ex_field ''name'' None False None],
     t_inheritanceResolved = True\<rparr>"

definition ex_T :: MaxiTypeDef where
  \<comment> \<open>\<open>T:Thing(id|type|name)\<close>\<close>
  "ex_T = \<lparr>t_alias = ''T'', t_name = Some ''Thing'', t_parents = [],
     t_fields = [ex_field ''id'' None False None, ex_field ''type'' None False None,
                 ex_field ''name'' None False None],
     t_inheritanceResolved = True\<rparr>"

definition ex_D :: MaxiTypeDef where
  \<comment> \<open>\<open>D(id|type=base|name)\<close>\<close>
  "ex_D = \<lparr>t_alias = ''D'', t_name = None, t_parents = [],
     t_fields = [ex_field ''id'' None False None, ex_field ''type'' None False (Some ''base''),
                 ex_field ''name'' None False None],
     t_inheritanceResolved = True\<rparr>"

definition ex_R :: MaxiTypeDef where
  \<comment> \<open>\<open>R:Req(id|name(!))\<close>\<close>
  "ex_R = \<lparr>t_alias = ''R'', t_name = Some ''Req'', t_parents = [],
     t_fields = [ex_field ''id'' None False None, ex_field ''name'' None True None],
     t_inheritanceResolved = True\<rparr>"

definition ex_schema :: "string \<Rightarrow> MaxiSchema" where
  "ex_schema mode = new_MaxiSchema\<lparr>s_mode := mode,
     s_types := [(''U'', ex_U), (''T'', ex_T), (''D'', ex_D), (''R'', ex_R)]\<rparr>"

definition ex_td :: "string \<Rightarrow> string list \<Rightarrow> MaxiFieldDef list \<Rightarrow> MaxiTypeDef" where
  \<comment> \<open>A type as \<open>parseTypeDefinition\<close> leaves it: not yet resolved.\<close>
  "ex_td a ps fs = \<lparr>t_alias = a, t_name = None, t_parents = ps, t_fields = fs,
     t_inheritanceResolved = False\<rparr>"

definition ex_diamond :: MaxiSchema where
  \<comment> \<open>\<open>C<A,B>(b:int|c)\<close>, \<open>A(a|b)\<close>, \<open>B(b:str|z)\<close>\<close>
  "ex_diamond = new_MaxiSchema\<lparr>s_types :=
     [(''C'', ex_td ''C'' [''A'', ''B'']
                [ex_field ''b'' (Some ''int'') False None, ex_field ''c'' None False None]),
      (''A'', ex_td ''A'' [] [ex_field ''a'' None False None, ex_field ''b'' None False None]),
      (''B'', ex_td ''B'' []
                [ex_field ''b'' (Some ''str'') False None, ex_field ''z'' None False None])]\<rparr>"

definition ex_rank :: "string \<Rightarrow> nat" where
  "ex_rank a = (if a = ''C'' then 1 else 0)"

definition ex_twice :: MaxiSchema where
  \<comment> \<open>\<open>T(a|a:int)\<close>: the parser accepts two fields of one name.\<close>
  "ex_twice = new_MaxiSchema\<lparr>s_types :=
     [(''T'', ex_td ''T'' []
                [ex_field ''a'' None False None, ex_field ''a'' (Some ''int'') False None])]\<rparr>"
section \<open>Inheritance resolver\<close>

text \<open>
  \<open>resolveInheritance\<close> never adds or removes a type and never writes the parents of
  a type, so the resolver reads the aliases and the parent lists from the list of types
  as it is on entry (\<open>tys\<close>), and threads what it mutates: the set \<open>visited\<close>, the field
  list of every type and its \<open>_inheritanceResolved\<close> flag. The set \<open>visiting\<close> is passed
  down: a call that returns normally has added its alias and deleted it again, and a call
  that throws ends the whole resolution.
\<close>

record ri_state =
  ri_visited :: "string set"
  ri_fields :: "string \<Rightarrow> MaxiFieldDef list"
  ri_resolved :: "string \<Rightarrow> bool"

definition addInherited :: "MaxiFieldDef list \<Rightarrow> MaxiFieldDef list \<Rightarrow> MaxiFieldDef list" where
  \<comment> \<open>The inner loop over one parent's fields: push a field unless its name is there.\<close>
  "addInherited inheritedFields parentFields =
     fold (\<lambda>field acc. if list_ex (\<lambda>f. f_name f = f_name field) acc then acc else acc @ [field])
       parentFields inheritedFields"

definition overlayOwn :: "MaxiFieldDef list \<Rightarrow> MaxiFieldDef list \<Rightarrow> MaxiFieldDef list" where
  \<comment> \<open>The loop over the own fields: override at \<open>existingIndex\<close>, or push.\<close>
  "overlayOwn inheritedFields ownFields =
     fold (\<lambda>ownField finalFields.
             case findIndex (\<lambda>f. f_name f = f_name ownField) finalFields of
               Some existingIndex \<Rightarrow> finalFields[existingIndex := ownField]
             | None \<Rightarrow> finalFields @ [ownField])
       ownFields inheritedFields"

function resolveType ::
    "(string \<times> MaxiTypeDef) list \<Rightarrow> string set \<Rightarrow> string \<Rightarrow> ri_state \<Rightarrow> maxi_error + ri_state"
  and resolveParents ::
    "(string \<times> MaxiTypeDef) list \<Rightarrow> string set \<Rightarrow> string \<Rightarrow> string list \<Rightarrow> MaxiFieldDef list
       \<Rightarrow> ri_state \<Rightarrow> maxi_error + (MaxiFieldDef list \<times> ri_state)"
where
  "resolveType tys visiting alias st =
     (if alias \<in> ri_visited st then Inr st
      else if alias \<in> visiting then Inl (MaxiError CircularInheritanceError None)
      else
        (case map_of tys alias of
           None \<Rightarrow> Inr st
         | Some typeDef \<Rightarrow>
             if ri_resolved st alias then Inr st
             else
               (case resolveParents tys (insert alias visiting) alias (t_parents typeDef) [] st of
                  Inl e \<Rightarrow> Inl e
                | Inr (inheritedFields, st') \<Rightarrow>
                    Inr (st'\<lparr>ri_fields := (ri_fields st')
                                (alias := overlayOwn inheritedFields (ri_fields st' alias)),
                             ri_resolved := (ri_resolved st')(alias := True),
                             ri_visited := insert alias (ri_visited st')\<rparr>))))"
| "resolveParents tys visiting alias [] inheritedFields st = Inr (inheritedFields, st)"
| "resolveParents tys visiting alias (parentAlias # rest) inheritedFields st =
     (case map_of tys parentAlias of
        None \<Rightarrow> Inl (MaxiError UndefinedParentError None)
      | Some parentType \<Rightarrow>
          (case resolveType tys visiting parentAlias st of
             Inl e \<Rightarrow> Inl e
           | Inr st' \<Rightarrow>
               resolveParents tys visiting alias rest
                 (addInherited inheritedFields (ri_fields st' parentAlias)) st'))"
  by pat_completeness auto
termination
proof (relation "inv_image (less_than <*lex*> less_than)
        (\<lambda>x. case x of
           Inl (tys, visiting, alias, st) \<Rightarrow> (card (fst ` set tys - visiting), 0)
         | Inr (tys, visiting, alias, ps, inh, st) \<Rightarrow>
             (card (fst ` set tys - visiting), Suc (length ps)))", goal_cases)
  case 1
  show ?case by (intro wf_inv_image wf_lex_prod wf_less_than)
next
  case (2 tys visiting a st typeDef)
  have "a \<in> fst ` set tys" using 2(3) by (force dest: map_of_SomeD)
  then have "fst ` set tys - insert a visiting \<subset> fst ` set tys - visiting"
    using 2(2) by auto
  then have "card (fst ` set tys - insert a visiting) < card (fst ` set tys - visiting)"
    by (intro psubset_card_mono) auto
  then show ?case by simp
next
  case 3
  show ?case by simp
next
  case 4
  show ?case by simp
qed

declare resolveType.simps [simp del] resolveParents.simps [simp del]

fun resolveAll :: "(string \<times> MaxiTypeDef) list \<Rightarrow> string list \<Rightarrow> ri_state \<Rightarrow> maxi_error + ri_state"
  where
  \<comment> \<open>The loop \<open>for (const alias of types.keys()) resolveType(alias)\<close>.\<close>
  "resolveAll tys [] st = Inr st"
| "resolveAll tys (alias # rest) st =
     (case resolveType tys {} alias st of Inl e \<Rightarrow> Inl e | Inr st' \<Rightarrow> resolveAll tys rest st')"

definition ri_init :: "(string \<times> MaxiTypeDef) list \<Rightarrow> ri_state" where
  "ri_init tys =
     \<lparr>ri_visited = {},
      ri_fields = (\<lambda>a. case map_of tys a of Some td \<Rightarrow> t_fields td | None \<Rightarrow> []),
      ri_resolved = (\<lambda>a. case map_of tys a of Some td \<Rightarrow> t_inheritanceResolved td | None \<Rightarrow> False)\<rparr>"

definition resolveInheritance :: "MaxiSchema \<Rightarrow> maxi_error + MaxiSchema" where
  "resolveInheritance sch =
     (case resolveAll (s_types sch) (map fst (s_types sch)) (ri_init (s_types sch)) of
        Inl e \<Rightarrow> Inl e
      | Inr st \<Rightarrow>
          Inr (sch\<lparr>s_types :=
                 map (\<lambda>(a, td). (a, td\<lparr>t_fields := ri_fields st a,
                                        t_inheritanceResolved := ri_resolved st a\<rparr>))
                   (s_types sch)\<rparr>))"

subsection \<open>The merge as the specification words it\<close>

fun keep_first_by_name :: "MaxiFieldDef list \<Rightarrow> MaxiFieldDef list" where
  \<comment> \<open>Keep only the first field of each name.\<close>
  "keep_first_by_name [] = []"
| "keep_first_by_name (f # fs) = f # keep_first_by_name (filter (\<lambda>g. f_name g \<noteq> f_name f) fs)"

definition spec_inherited :: "MaxiFieldDef list list \<Rightarrow> MaxiFieldDef list" where
  \<comment> \<open>The parents' resolved fields concatenated in declared parent order, keeping only
     the first field of each name.\<close>
  "spec_inherited parentFieldLists = keep_first_by_name (concat parentFieldLists)"

definition spec_overlay :: "MaxiFieldDef list \<Rightarrow> MaxiFieldDef list \<Rightarrow> MaxiFieldDef list" where
  \<comment> \<open>A same-named own field replaces the inherited field in place; every other own
     field is appended at the end.\<close>
  "spec_overlay inherited own =
     map (\<lambda>f. case find (\<lambda>ownField. f_name ownField = f_name f) own of
                 Some ownField \<Rightarrow> ownField | None \<Rightarrow> f) inherited
     @ filter (\<lambda>ownField. \<not> list_ex (\<lambda>f. f_name f = f_name ownField) inherited) own"

definition fieldsOf :: "MaxiSchema \<Rightarrow> string \<Rightarrow> MaxiFieldDef list" where
  "fieldsOf sch alias = (case getType sch alias of Some td \<Rightarrow> t_fields td | None \<Rightarrow> [])"

subsection \<open>Invariants of the resolution\<close>

definition repl :: "MaxiFieldDef list \<Rightarrow> MaxiFieldDef \<Rightarrow> MaxiFieldDef" where
  \<comment> \<open>The own field of the same name, if there is one.\<close>
  "repl own f = (case find (\<lambda>ownField. f_name ownField = f_name f) own of
                   Some ownField \<Rightarrow> ownField | None \<Rightarrow> f)"

definition ov_step :: "MaxiFieldDef \<Rightarrow> MaxiFieldDef list \<Rightarrow> MaxiFieldDef list" where
  \<comment> \<open>One iteration of the loop of \<open>overlayOwn\<close>.\<close>
  "ov_step ownField finalFields =
     (case findIndex (\<lambda>f. f_name f = f_name ownField) finalFields of
        Some existingIndex \<Rightarrow> finalFields[existingIndex := ownField]
      | None \<Rightarrow> finalFields @ [ownField])"

definition ri_merged :: "(string \<times> MaxiTypeDef) list \<Rightarrow> ri_state \<Rightarrow> string \<Rightarrow> MaxiTypeDef \<Rightarrow> bool"
  where
  \<comment> \<open>The fields of \<open>a\<close> are the merge of its parents' current fields with its own.\<close>
  "ri_merged tys st a td \<longleftrightarrow>
     ri_fields st a
       = overlayOwn (fold (\<lambda>p inh. addInherited inh (ri_fields st p)) (t_parents td) [])
           (t_fields td) \<and>
     (\<forall>p \<in> set (t_parents td). map_of tys p \<noteq> None \<and> ri_resolved st p)"

definition ri_good :: "(string \<times> MaxiTypeDef) list \<Rightarrow> ri_state \<Rightarrow> bool" where
  "ri_good tys st \<longleftrightarrow>
     (\<forall>a td. map_of tys a = Some td \<longrightarrow>
        (ri_resolved st a \<and> \<not> t_inheritanceResolved td \<longrightarrow> ri_merged tys st a td) \<and>
        (\<not> ri_resolved st a \<longrightarrow> ri_fields st a = t_fields td) \<and>
        (t_inheritanceResolved td \<longrightarrow> ri_resolved st a \<and> ri_fields st a = t_fields td)) \<and>
     (\<forall>a \<in> ri_visited st. ri_resolved st a)"

definition ri_le :: "ri_state \<Rightarrow> ri_state \<Rightarrow> bool" where
  \<comment> \<open>Resolved types stay resolved and keep their fields.\<close>
  "ri_le st st' \<longleftrightarrow>
     (\<forall>a. ri_resolved st a \<longrightarrow> ri_resolved st' a \<and> ri_fields st' a = ri_fields st a) \<and>
     ri_visited st \<subseteq> ri_visited st'"

definition ri_frame :: "string set \<Rightarrow> ri_state \<Rightarrow> ri_state \<Rightarrow> bool" where
  \<comment> \<open>No type on the active path gets resolved.\<close>
  "ri_frame visiting st st' \<longleftrightarrow> (\<forall>v \<in> visiting. ri_resolved st' v \<longrightarrow> ri_resolved st v)"

section \<open>Schema parser: lines, directives and imports\<close>





















section \<open>Serializer: promotion of referenced objects\<close>

text \<open>
  The serializer walks live objects and tells them apart by reference, so the input is a
  heap: a finite list of cells, each an object (its own properties in order) or an array,
  and a value of object type is the address of a cell. A value \<open>v\<close> passes the test
  \<open>v && typeof v === 'object'\<close> exactly when it is such an address. Properties found on the
  prototype chain are not modelled: they are functions, or objects with no \<open>id\<close>, and
  lead to no promotion. An address outside the heap does not occur in a run; the model
  treats it as a value that is not an object.

  The state of \<open>collectReferencedObjectsIterative\<close> is the map \<open>recordsToDump\<close>, the set
  \<open>seenObjects\<close> and the array \<open>work\<close>. Two more components record what the loop did
  and are not part of the code: \<open>co_walked\<close> lists the objects popped from \<open>work\<close>, and
  \<open>co_promoted\<close> lists the promotions as (alias of the walked object, field, promoted
  object), both in order.
\<close>

datatype dval = DUndefined | DNull | DBool bool | DNum int | DStr string | DRef nat

datatype hobj = HObject "(string \<times> dval) list" | HArray "dval list"

type_synonym heap = "(nat \<times> hobj) list"

record co_state =
  co_records :: "(string \<times> dval list) list"
  co_seen :: "nat set"
  co_work :: "(string \<times> nat) list"
  co_walked :: "nat list"
  co_promoted :: "(string \<times> MaxiFieldDef \<times> nat) list"

definition get_prop :: "heap \<Rightarrow> nat \<Rightarrow> string \<Rightarrow> dval" where
  \<comment> \<open>\<open>obj[name]\<close> on the own properties of a cell.\<close>
  "get_prop h a name =
     (case map_of h a of
        None \<Rightarrow> DUndefined
      | Some (HObject props) \<Rightarrow> (case map_of props name of Some v \<Rightarrow> v | None \<Rightarrow> DUndefined)
      | Some (HArray xs) \<Rightarrow>
          (case find (\<lambda>i. nat_str i = name) [0..<length xs] of
             Some i \<Rightarrow> xs ! i
           | None \<Rightarrow> if name = ''length'' then DNum (int (length xs)) else DUndefined))"

definition object_ref :: "heap \<Rightarrow> dval \<Rightarrow> nat option" where
  \<comment> \<open>\<open>v && typeof v === 'object'\<close>: the address, if \<open>v\<close> is an object or an array.\<close>
  "object_ref h v = (case v of DRef a \<Rightarrow> if map_of h a \<noteq> None then Some a else None | _ \<Rightarrow> None)"

definition items_of :: "heap \<Rightarrow> nat \<Rightarrow> dval list" where
  \<comment> \<open>\<open>Array.isArray(v) ? v : [v]\<close>\<close>
  "items_of h a = (case map_of h a of Some (HArray xs) \<Rightarrow> xs | _ \<Rightarrow> [DRef a])"

definition strip_array :: "string \<Rightarrow> string" where
  \<comment> \<open>\<open>typeExpr.replace(/\[\]$/, '')\<close>\<close>
  "strip_array t =
     (if 2 \<le> length t \<and> drop (length t - 2) t = ''[]'' then take (length t - 2) t else t)"

definition push_record :: "string \<Rightarrow> dval \<Rightarrow> (string \<times> dval list) list \<Rightarrow> (string \<times> dval list) list"
  where
  \<comment> \<open>\<open>if (!recordsToDump.has(alias)) recordsToDump.set(alias, []);
     recordsToDump.get(alias).push(item)\<close>\<close>
  "push_record alias item recs =
     (if map_of recs alias = None then recs @ [(alias, [item])]
      else map (\<lambda>(a, rows). if a = alias then (a, rows @ [item]) else (a, rows)) recs)"

definition promoteItem ::
    "heap \<Rightarrow> string \<Rightarrow> MaxiFieldDef \<Rightarrow> MaxiTypeDef \<Rightarrow> dval \<Rightarrow> co_state \<Rightarrow> co_state" where
  \<comment> \<open>The body of the loop over \<open>items\<close>; \<open>idField.name\<close> is \<open>id\<close>.\<close>
  "promoteItem h alias field nestedType item st =
     (case object_ref h item of
        None \<Rightarrow> st
      | Some a \<Rightarrow>
          if a \<in> co_seen st then st
          else if get_prop h a ''id'' \<noteq> DUndefined then
            st\<lparr>co_records := push_record (t_alias nestedType) item (co_records st),
               co_seen := insert a (co_seen st),
               co_work := co_work st @ [(t_alias nestedType, a)],
               co_promoted := co_promoted st @ [(alias, field, a)]\<rparr>
          else st)"

definition walkField ::
    "heap \<Rightarrow> (string \<times> MaxiTypeDef) list \<Rightarrow> string \<Rightarrow> nat \<Rightarrow> MaxiFieldDef \<Rightarrow> co_state \<Rightarrow> co_state"
  where
  \<comment> \<open>The body of the loop over the fields of the type of \<open>obj\<close>.\<close>
  "walkField h allTypes alias obj field st =
     (case object_ref h (get_prop h obj (f_name field)) of
        None \<Rightarrow> st
      | Some v \<Rightarrow>
          (case f_typeExpr field of
             None \<Rightarrow> st
           | Some typeExpr \<Rightarrow>
               let baseType = strip_array typeExpr in
               if baseType = [] then st
               else (case map_of allTypes baseType of
                       None \<Rightarrow> st
                     | Some nestedType \<Rightarrow>
                         if \<not> list_ex (\<lambda>f. f_name f = ''id'') (t_fields nestedType) then st
                         else fold (promoteItem h alias field nestedType) (items_of h v) st)))"

definition walkObject ::
    "heap \<Rightarrow> (string \<times> MaxiTypeDef) list \<Rightarrow> co_state \<Rightarrow> co_state" where
  \<comment> \<open>One iteration of the \<open>while\<close> loop, for a worklist that is not empty.\<close>
  "walkObject h allTypes st =
     (let (alias, obj) = last (co_work st);
          st1 = st\<lparr>co_work := butlast (co_work st), co_walked := co_walked st @ [obj]\<rparr>
      in case map_of allTypes alias of
           None \<Rightarrow> st1
         | Some t \<Rightarrow> fold (walkField h allTypes alias obj) (t_fields t) st1)"

definition co_grows :: "heap \<Rightarrow> co_state \<Rightarrow> co_state \<Rightarrow> bool" where
  \<comment> \<open>What a step may do to \<open>seenObjects\<close> and \<open>work\<close>: new objects of the heap are marked
     seen; if none is, the worklist is as before.\<close>
  "co_grows h st st' \<longleftrightarrow>
     co_seen st \<subseteq> co_seen st' \<and> co_seen st' - co_seen st \<subseteq> fst ` set h \<and>
     (co_seen st' = co_seen st \<longrightarrow> co_work st' = co_work st)"

lemma co_grows_refl: "co_grows h st st"
  by (simp add: co_grows_def)

lemma co_grows_trans: "co_grows h a b \<Longrightarrow> co_grows h b c \<Longrightarrow> co_grows h a c"
  unfolding co_grows_def by auto

lemma object_ref_Some: "object_ref h v = Some a \<Longrightarrow> v = DRef a \<and> a \<in> fst ` set h"
  by (auto simp: object_ref_def map_of_eq_None_iff split: dval.splits if_splits)

lemma promoteItem_grows: "co_grows h st (promoteItem h alias field nestedType item st)"
  by (auto simp: promoteItem_def co_grows_def dest: object_ref_Some split: option.splits)

lemma fold_grows:
  "(\<And>x s. co_grows h s (f x s)) \<Longrightarrow> co_grows h st (fold f xs st)"
proof (induction xs arbitrary: st)
  case Nil
  show ?case by (simp add: co_grows_refl)
next
  case (Cons x xs)
  have "co_grows h (f x st) (fold f xs (f x st))" by (rule Cons.IH) (rule Cons.prems)
  with Cons.prems [of st x] show ?case by (simp add: co_grows_trans)
qed

lemma promoteItems_grows:
  "co_grows h st (fold (promoteItem h alias field nestedType) items st)"
  by (rule fold_grows) (rule promoteItem_grows)

lemma walkField_grows: "co_grows h st (walkField h allTypes alias obj field st)"
  by (simp add: walkField_def Let_def co_grows_refl promoteItems_grows split: option.splits)

lemma walkFields_grows: "co_grows h st (fold (walkField h allTypes alias obj) fs st)"
  by (rule fold_grows) (rule walkField_grows)

lemma walkObject_measure:
  assumes "co_work st \<noteq> []"
  shows "((card (fst ` set h - co_seen (walkObject h allTypes st)),
           length (co_work (walkObject h allTypes st))),
          (card (fst ` set h - co_seen st), length (co_work st)))
         \<in> less_than <*lex*> less_than"
proof -
  obtain al ob where l: "last (co_work st) = (al, ob)" by (cases "last (co_work st)")
  define st1 where "st1 = st\<lparr>co_work := butlast (co_work st), co_walked := co_walked st @ [ob]\<rparr>"
  have s1: "co_seen st1 = co_seen st" and w1: "length (co_work st1) < length (co_work st)"
    using assms by (simp_all add: st1_def)
  have "co_grows h st1 (walkObject h allTypes st)"
    using l by (auto simp: walkObject_def st1_def [symmetric] co_grows_refl walkFields_grows
                     split: option.splits)
  then have sub: "co_seen st \<subseteq> co_seen (walkObject h allTypes st)"
    and new: "co_seen (walkObject h allTypes st) - co_seen st \<subseteq> fst ` set h"
    and same: "co_seen (walkObject h allTypes st) = co_seen st
                 \<Longrightarrow> co_work (walkObject h allTypes st) = co_work st1"
    by (simp_all add: co_grows_def s1)
  show ?thesis
  proof (cases "co_seen (walkObject h allTypes st) = co_seen st")
    case True
    then show ?thesis using same w1 by simp
  next
    case False
    then obtain a where a: "a \<in> co_seen (walkObject h allTypes st)" "a \<notin> co_seen st"
      using sub by blast
    then have "a \<in> fst ` set h" using new by blast
    then have "fst ` set h - co_seen (walkObject h allTypes st) \<subset> fst ` set h - co_seen st"
      using a sub by blast
    then have "card (fst ` set h - co_seen (walkObject h allTypes st))
                 < card (fst ` set h - co_seen st)"
      by (intro psubset_card_mono) auto
    then show ?thesis by simp
  qed
qed

function collectLoop :: "heap \<Rightarrow> (string \<times> MaxiTypeDef) list \<Rightarrow> co_state \<Rightarrow> co_state" where
  \<comment> \<open>\<open>while (work.length > 0) { ... }\<close>\<close>
  "collectLoop h allTypes st =
     (if co_work st = [] then st else collectLoop h allTypes (walkObject h allTypes st))"
  by pat_completeness auto
termination
proof (relation "inv_image (less_than <*lex*> less_than)
        (\<lambda>(h, allTypes, st). (card (fst ` set h - co_seen st), length (co_work st)))", goal_cases)
  case 1
  show ?case by (intro wf_inv_image wf_lex_prod wf_less_than)
next
  case (2 h allTypes st)
  then show ?case using walkObject_measure [of st h allTypes] by simp
qed

declare collectLoop.simps [simp del]

definition seedRow :: "heap \<Rightarrow> string \<Rightarrow> dval \<Rightarrow> co_state \<Rightarrow> co_state" where
  "seedRow h alias obj st =
     (case object_ref h obj of
        None \<Rightarrow> st
      | Some a \<Rightarrow>
          if a \<in> co_seen st then st
          else st\<lparr>co_seen := insert a (co_seen st), co_work := co_work st @ [(alias, a)]\<rparr>)"

definition seedWork :: "heap \<Rightarrow> (string \<times> dval list) list \<Rightarrow> nat set \<Rightarrow> co_state" where
  \<comment> \<open>The first loop: every top-level row that is an object and not yet seen.\<close>
  "seedWork h recordsToDump seenObjects =
     fold (\<lambda>(alias, rows) st. fold (seedRow h alias) rows st) recordsToDump
       \<lparr>co_records = recordsToDump, co_seen = seenObjects, co_work = [], co_walked = [],
        co_promoted = []\<rparr>"

definition collectReferencedObjectsIterative ::
    "heap \<Rightarrow> (string \<times> MaxiTypeDef) list \<Rightarrow> (string \<times> dval list) list \<Rightarrow> nat set \<Rightarrow> co_state"
  where
  "collectReferencedObjectsIterative h allTypes recordsToDump seenObjects =
     collectLoop h allTypes (seedWork h recordsToDump seenObjects)"

definition targetType :: "(string \<times> MaxiTypeDef) list \<Rightarrow> MaxiFieldDef \<Rightarrow> MaxiTypeDef option" where
  \<comment> \<open>\<open>nestedType\<close>: the type that the declared type of a field names, one array suffix
     stripped.\<close>
  "targetType allTypes field =
     (case f_typeExpr field of
        None \<Rightarrow> None
      | Some typeExpr \<Rightarrow>
          if strip_array typeExpr = [] then None else map_of allTypes (strip_array typeExpr))"

definition targetAlias :: "(string \<times> MaxiTypeDef) list \<Rightarrow> MaxiFieldDef \<Rightarrow> string" where
  "targetAlias allTypes field =
     (case targetType allTypes field of None \<Rightarrow> [] | Some nestedType \<Rightarrow> t_alias nestedType)"

definition promotable :: "heap \<Rightarrow> (string \<times> MaxiTypeDef) list \<Rightarrow> MaxiFieldDef \<Rightarrow> nat \<Rightarrow> bool" where
  \<comment> \<open>The declared type of the field names a known type with a field called \<open>id\<close>, and
     the property \<open>id\<close> of the object is not \<open>undefined\<close>.\<close>
  "promotable h allTypes field item \<longleftrightarrow>
     (case targetType allTypes field of
        None \<Rightarrow> False
      | Some nestedType \<Rightarrow> list_ex (\<lambda>f. f_name f = ''id'') (t_fields nestedType))
     \<and> map_of h item \<noteq> None \<and> get_prop h item ''id'' \<noteq> DUndefined"

definition getIdField :: "MaxiTypeDef \<Rightarrow> MaxiFieldDef option" where
  \<comment> \<open>\<open>MaxiTypeDef.getIdField\<close>: the first field with an \<open>id\<close> constraint, else the field
     named \<open>id\<close>.\<close>
  "getIdField td =
     (case find (\<lambda>f. case f_constraints f of None \<Rightarrow> False | Some cs \<Rightarrow> list_ex (\<lambda>c. c = Id) cs)
             (t_fields td) of
        Some explicitId \<Rightarrow> Some explicitId
      | None \<Rightarrow> find (\<lambda>f. f_name f = ''id'') (t_fields td))"

definition top_level :: "(string \<times> dval list) list \<Rightarrow> nat set" where
  \<comment> \<open>The objects among the rows given as input.\<close>
  "top_level recordsToDump = {a. DRef a \<in> \<Union> (set ` snd ` set recordsToDump)}"

definition co_inv ::
    "heap \<Rightarrow> (string \<times> MaxiTypeDef) list \<Rightarrow> (string \<times> dval list) list \<Rightarrow> nat set \<Rightarrow> co_state \<Rightarrow> bool"
  where
  \<comment> \<open>The invariant of the \<open>while\<close> loop; \<open>seeded\<close> is \<open>seenObjects\<close> after the first loop.\<close>
  "co_inv h allTypes recordsToDump seeded st \<longleftrightarrow>
     distinct (co_walked st @ map snd (co_work st)) \<and>
     set (co_walked st) \<union> snd ` set (co_work st) \<subseteq> co_seen st \<and>
     distinct (map (\<lambda>(alias, field, item). item) (co_promoted st)) \<and>
     (\<lambda>(alias, field, item). item) ` set (co_promoted st) \<subseteq> co_seen st - seeded \<and>
     seeded \<subseteq> co_seen st \<and>
     (\<lambda>(alias, field, item). item) ` set (co_promoted st)
       \<subseteq> set (co_walked st) \<union> snd ` set (co_work st) \<and>
     list_all (\<lambda>(alias, field, item). promotable h allTypes field item) (co_promoted st) \<and>
     co_records st
       = fold (\<lambda>(alias, field, item). push_record (targetAlias allTypes field) (DRef item))
           (co_promoted st) recordsToDump"

definition seed_inv :: "heap \<Rightarrow> (string \<times> dval list) list \<Rightarrow> nat set \<Rightarrow> co_state \<Rightarrow> bool" where
  \<comment> \<open>The invariant of the first loop.\<close>
  "seed_inv h R S st \<longleftrightarrow>
     co_records st = R \<and> co_promoted st = [] \<and> co_walked st = [] \<and>
     distinct (map snd (co_work st)) \<and> snd ` set (co_work st) \<subseteq> co_seen st \<and> S \<subseteq> co_seen st"

definition ex_P :: MaxiTypeDef where
  \<comment> \<open>\<open>P(id|boss:P|peers:P[])\<close>\<close>
  "ex_P = ex_td ''P'' []
     [ex_field ''id'' None False None, ex_field ''boss'' (Some ''P'') False None,
      ex_field ''peers'' (Some ''P[]'') False None]"

definition ex_heap :: heap where
  \<comment> \<open>\<open>p0 = {id: 1, boss: p1, peers: [p1, p0, 5]}\<close>, \<open>p1 = {id: 2, boss: p2}\<close>,
     \<open>p2 = {id: 3}\<close>: \<open>p1\<close> is referenced twice.\<close>
  "ex_heap =
     [(0, HObject [(''id'', DNum 1), (''boss'', DRef 1), (''peers'', DRef 3)]),
      (1, HObject [(''id'', DNum 2), (''boss'', DRef 2)]),
      (2, HObject [(''id'', DNum 3)]),
      (3, HArray [DRef 1, DRef 0, DNum 5])]"

definition ex_heap_null :: heap where
  \<comment> \<open>\<open>p0 = {id: 1, boss: p1}\<close>, \<open>p1 = {id: null}\<close>\<close>
  "ex_heap_null =
     [(0, HObject [(''id'', DNum 1), (''boss'', DRef 1)]),
      (1, HObject [(''id'', DNull)])]"

section \<open>Losslessness of the top-level split\<close>

text \<open>
  Claim C10. For every input string and every one-character delimiter, both top-level
  splitters (the schema parser's and the record parser's) are lossless: joining the
  returned parts with the delimiter between consecutive parts gives back the input,
  whatever quotes, escapes or brackets it contains.
\<close>

theorem C10_splitTopLevel_lossless:
  "join_with delim (schema_splitTopLevel s delim) = s \<and>
   join_with delim (record_splitTopLevel s delim) = s"
  by (simp add: schema_split_lossless record_split_lossless)

section \<open>The version directive\<close>

lemma not_digit_dot: "\<not> is_digit (CHR ''.'')" by (simp add: is_digit_def)

lemma re_digits1_app:
  assumes "list_all is_digit a" and "a \<noteq> []" and "r = [] \<or> \<not> is_digit (hd r)"
  shows "re_digits1 (a @ r) = Some r"
proof -
  have a: "\<And>x. x \<in> set a \<Longrightarrow> is_digit x" using assms(1) by (simp add: list_all_iff)
  have t: "takeWhile is_digit r = []" and d: "dropWhile is_digit r = r"
    using assms(3) by (cases r; auto)+
  have "takeWhile is_digit (a @ r) = a" using a t by (simp add: takeWhile_append2)
  moreover have "dropWhile is_digit (a @ r) = r" using a d by (simp add: dropWhile_append2)
  ultimately show ?thesis using assms(2) by (simp add: re_digits1_def)
qed

lemma re_digits1_Some:
  assumes "re_digits1 s = Some r"
  shows "\<exists>a. s = a @ r \<and> a \<noteq> [] \<and> list_all is_digit a"
proof -
  from assms have ne: "takeWhile is_digit s \<noteq> []" and r: "r = dropWhile is_digit s"
    by (auto simp: re_digits1_def split: if_splits)
  have "s = takeWhile is_digit s @ r" using r by simp
  moreover have "list_all is_digit (takeWhile is_digit s)"
    by (simp add: list_all_iff) (meson set_takeWhileD)
  ultimately show ?thesis using ne by blast
qed

lemma semver_test_shape: "semver_test v \<longleftrightarrow> semver_shape v"
proof
  assume t: "semver_test v"
  obtain r1 where 1: "re_digits1 v = Some r1"
    using t by (cases "re_digits1 v") (simp_all add: semver_test_def)
  obtain r2 where 2: "r1 = CHR ''.'' # r2"
    using t 1 by (cases r1) (simp_all add: semver_test_def)
  obtain r3 where 3: "re_digits1 r2 = Some r3"
    using t 1 2 by (cases "re_digits1 r2") (simp_all add: semver_test_def)
  obtain r4 where 4: "r3 = CHR ''.'' # r4"
    using t 1 2 3 by (cases r3) (simp_all add: semver_test_def)
  have 5: "re_digits1 r4 = Some []"
    using t 1 2 3 4 by (cases "re_digits1 r4") (simp_all add: semver_test_def)
  from re_digits1_Some [OF 1] obtain a where a: "v = a @ r1" "a \<noteq> []" "list_all is_digit a"
    by blast
  from re_digits1_Some [OF 3] obtain b where b: "r2 = b @ r3" "b \<noteq> []" "list_all is_digit b"
    by blast
  from re_digits1_Some [OF 5] obtain c where c: "r4 = c @ []" "c \<noteq> []" "list_all is_digit c"
    by blast
  have "v = a @ ''.'' @ b @ ''.'' @ c" using a(1) b(1) c(1) 2 4 by simp
  then show "semver_shape v" unfolding semver_shape_def using a b c by blast
next
  assume "semver_shape v"
  then obtain a b c where v: "v = a @ ''.'' @ b @ ''.'' @ c"
    and ne: "a \<noteq> []" "b \<noteq> []" "c \<noteq> []"
    and dg: "list_all is_digit a" "list_all is_digit b" "list_all is_digit c"
    unfolding semver_shape_def by blast
  have c: "re_digits1 c = Some []"
    using re_digits1_app [OF dg(3) ne(3), of "[]"] by simp
  have b: "re_digits1 (b @ CHR ''.'' # c) = Some (CHR ''.'' # c)"
    using re_digits1_app [OF dg(2) ne(2), of "CHR ''.'' # c"] by (simp add: not_digit_dot)
  have a: "re_digits1 (a @ CHR ''.'' # b @ CHR ''.'' # c) = Some (CHR ''.'' # b @ CHR ''.'' # c)"
    using re_digits1_app [OF dg(1) ne(1), of "CHR ''.'' # b @ CHR ''.'' # c"]
    by (simp add: not_digit_dot)
  show "semver_test v" using a b c by (simp add: semver_test_def v)
qed

text \<open>
  Claim C8. A \<open>@version\<close> value of the shape \<open>\d+\.\d+\.\d+\<close> other than \<open>1.0.0\<close> fails
  with the unsupported-version code; a value not of that shape fails with the
  syntax-error code; the value \<open>1.0.0\<close> is accepted and stored in the schema.
\<close>

theorem C8_version_directive:
  "(semver_shape v \<and> v \<noteq> ''1.0.0'' \<longrightarrow>
      parseVersionDirective v ln sch = Inl (MaxiError UnsupportedVersionError (Some ln))) \<and>
   (\<not> semver_shape v \<longrightarrow>
      parseVersionDirective v ln sch = Inl (MaxiError InvalidSyntaxError (Some ln))) \<and>
   parseVersionDirective ''1.0.0'' ln sch = Inr (sch\<lparr>s_version := ''1.0.0''\<rparr>)"
proof -
  have "semver_test ''1.0.0''"
    by (simp add: semver_test_def re_digits1_def is_digit_def)
  then show ?thesis
    by (simp add: parseVersionDirective_def semver_test_shape)
qed

theorem C8_version_directive_witness:
  "semver_shape ''2.0.0'' \<and> ''2.0.0'' \<noteq> ''1.0.0'' \<and>
   parseVersionDirective ''2.0.0'' 1 new_MaxiSchema
     = Inl (MaxiError UnsupportedVersionError (Some 1)) \<and>
   \<not> semver_shape ''1.0'' \<and>
   parseVersionDirective ''1.0'' 1 new_MaxiSchema = Inl (MaxiError InvalidSyntaxError (Some 1))"
proof -
  have a: "semver_shape ''2.0.0''"
    unfolding semver_test_shape [symmetric]
    by (simp add: semver_test_def re_digits1_def is_digit_def)
  have b: "\<not> semver_shape ''1.0''"
    unfolding semver_test_shape [symmetric]
    by (simp add: semver_test_def re_digits1_def is_digit_def)
  show ?thesis
    using a b C8_version_directive [of "''2.0.0''" 1 new_MaxiSchema]
      C8_version_directive [of "''1.0''" 1 new_MaxiSchema]
    by simp
qed

section \<open>Quoting and unquoting a string\<close>

text \<open>
  Claim C3 says that quoting a string in the serializer and unquoting it in the record
  parser gives the string back. It does not for a string in which a backslash is followed
  by \<open>n\<close>, \<open>r\<close> or \<open>t\<close>: the string \<open>C:\new\<close> (six characters) needs quoting because of
  its colon, is written as \<open>"C:\\new"\<close>, and is read back as \<open>C:\\<close>, a line feed, \<open>ew\<close>,
  because the parser replaces \<open>\n\<close> before it replaces \<open>\\\<close>.
\<close>

theorem C3_roundtrip_fails:
  "needsQuoting [CHR ''C'', CHR '':'', CHR 0x5C, CHR ''n'', CHR ''e'', CHR ''w''] \<and>
   dumpString [CHR ''C'', CHR '':'', CHR 0x5C, CHR ''n'', CHR ''e'', CHR ''w'']
     = [CHR 0x22, CHR ''C'', CHR '':'', CHR 0x5C, CHR 0x5C, CHR ''n'', CHR ''e'', CHR ''w'',
        CHR 0x22] \<and>
   parseQuotedString (dumpString [CHR ''C'', CHR '':'', CHR 0x5C, CHR ''n'', CHR ''e'', CHR ''w''])
     = [CHR ''C'', CHR '':'', CHR 0x5C, CHR 0x0A, CHR ''e'', CHR ''w''] \<and>
   parseQuotedString (dumpString [CHR ''C'', CHR '':'', CHR 0x5C, CHR ''n'', CHR ''e'', CHR ''w''])
     \<noteq> [CHR ''C'', CHR '':'', CHR 0x5C, CHR ''n'', CHR ''e'', CHR ''w'']"
  by (simp add: needsQuoting_def dumpString_def escapeString_def replace_char_def
      parseQuotedString_def js_ws_def)

section \<open>Coercion against a decimal field\<close>

lemma not_digit_minus: "\<not> is_digit (CHR ''-'')" by (simp add: is_digit_def)

lemma digit_str_hd: "digit_str ds \<Longrightarrow> is_digit (hd ds)"
  by (cases ds) (auto simp: digit_str_def)

lemma takeWhile_digits:
  "digit_str ds \<Longrightarrow> r = [] \<or> \<not> is_digit (hd r) \<Longrightarrow> takeWhile is_digit (ds @ r) = ds"
  by (cases r) (auto simp: digit_str_def list_all_iff takeWhile_append2)

lemma dropWhile_digits:
  "digit_str ds \<Longrightarrow> r = [] \<or> \<not> is_digit (hd r) \<Longrightarrow> dropWhile is_digit (ds @ r) = r"
  by (cases r) (auto simp: digit_str_def list_all_iff dropWhile_append2)

lemma dnk_core:
  assumes "sign_str sg" "body \<noteq> []" "is_digit (hd body)"
  shows "detectNumberKind (sg @ body) =
     (if dropWhile is_digit body = [] then 1
      else if hd (dropWhile is_digit body) \<noteq> CHR ''.'' then 0
      else if tl (dropWhile is_digit body) = [] then 3
      else if \<not> is_digit (hd (tl (dropWhile is_digit body))) then 0
      else if list_all is_digit (tl (dropWhile is_digit body)) then 2 else 0)"
proof (cases "sg = []")
  case True
  have "hd body \<noteq> CHR ''-''" using assms(3) not_digit_minus by auto
  then show ?thesis using True assms(2,3)
    by (simp add: detectNumberKind_def Let_def)
next
  case False
  then have sg: "sg = ''-''" using assms(1) by (simp add: sign_str_def)
  show ?thesis using assms(2,3)
    by (simp add: sg detectNumberKind_def Let_def)
qed

lemma dnk_body:
  assumes "sign_str sg" "digit_str ds" "r = [] \<or> \<not> is_digit (hd r)"
  shows "detectNumberKind (sg @ ds @ r) =
     (if r = [] then 1 else if hd r \<noteq> CHR ''.'' then 0 else if tl r = [] then 3
      else if \<not> is_digit (hd (tl r)) then 0 else if list_all is_digit (tl r) then 2 else 0)"
proof -
  have ne: "ds @ r \<noteq> []" and hd: "is_digit (hd (ds @ r))"
    using assms(2) digit_str_hd [of ds] by (auto simp: digit_str_def)
  have dw: "dropWhile is_digit (ds @ r) = r" using assms(2,3) by (rule dropWhile_digits)
  show ?thesis
    unfolding dnk_core [OF assms(1) ne hd] dw ..
qed

lemma dnk_int: "sign_str sg \<Longrightarrow> digit_str ds \<Longrightarrow> detectNumberKind (sg @ ds) = 1"
  using dnk_body [of sg ds "[]"] by simp

lemma dnk_dot: "sign_str sg \<Longrightarrow> digit_str ds \<Longrightarrow> detectNumberKind (sg @ ds @ ''.'') = 3"
  using dnk_body [of sg ds "''.''"] by (simp add: not_digit_dot)

lemma dnk_frac:
  "sign_str sg \<Longrightarrow> digit_str ds \<Longrightarrow> digit_str fs \<Longrightarrow> detectNumberKind (sg @ ds @ ''.'' @ fs) = 2"
  using dnk_body [of sg ds "''.'' @ fs"] digit_str_hd [of fs]
  by (simp add: not_digit_dot digit_str_def)

lemma dnk_nonzero_form:
  assumes "detectNumberKind s \<noteq> 0"
  shows "numeric_form s"
proof -
  have ne: "s \<noteq> []"
  proof
    assume "s = []"
    then have "detectNumberKind s = 0" by (simp add: detectNumberKind_def)
    with assms show False by simp
  qed
  define sg where "sg = (if hd s = CHR ''-'' then ''-'' else [])"
  define body where "body = (if hd s = CHR ''-'' then tl s else s)"
  have s: "s = sg @ body" using ne by (cases s) (auto simp: sg_def body_def)
  have sgn: "sign_str sg" by (simp add: sg_def sign_str_def)
  have one: "\<not> (hd s = CHR ''-'' \<and> length s = 1)"
  proof
    assume "hd s = CHR ''-'' \<and> length s = 1"
    then have "detectNumberKind s = 0" using ne by (simp add: detectNumberKind_def)
    with assms show False by simp
  qed
  have bne: "body \<noteq> []" using ne one by (cases s) (auto simp: body_def)
  have hdb: "is_digit (hd body)"
  proof (rule ccontr)
    assume "\<not> is_digit (hd body)"
    then have "detectNumberKind s = 0"
      using ne one by (simp add: detectNumberKind_def Let_def body_def)
    with assms show False by simp
  qed
  define ds where "ds = takeWhile is_digit body"
  define r where "r = dropWhile is_digit body"
  have body: "body = ds @ r" by (simp add: ds_def r_def)
  have dsd: "digit_str ds"
    using bne hdb by (cases body) (auto simp: ds_def digit_str_def list_all_iff dest: set_takeWhileD)
  have k: "detectNumberKind s =
     (if r = [] then 1 else if hd r \<noteq> CHR ''.'' then 0 else if tl r = [] then 3
      else if \<not> is_digit (hd (tl r)) then 0 else if list_all is_digit (tl r) then 2 else 0)"
    unfolding s r_def by (rule dnk_core [OF sgn bne hdb])
  show ?thesis
  proof (cases "r = []")
    case True
    then have "s = sg @ ds" using s body by simp
    then show ?thesis using sgn dsd unfolding numeric_form_def by blast
  next
    case False
    have "hd r = CHR ''.''"
    proof (rule ccontr)
      assume "hd r \<noteq> CHR ''.''"
      then have "detectNumberKind s = 0" using k False by simp
      with assms show False by simp
    qed
    then obtain fr where r: "r = CHR ''.'' # fr" using False by (cases r) auto
    show ?thesis
    proof (cases "fr = []")
      case True
      then have "s = sg @ ds @ ''.''" using s body r by simp
      then show ?thesis using sgn dsd unfolding numeric_form_def by blast
    next
      case False
      have "list_all is_digit fr"
      proof (rule ccontr)
        assume "\<not> list_all is_digit fr"
        then have "detectNumberKind s = 0" using k r False by simp
        with assms show False by simp
      qed
      then have "digit_str fr" using False by (simp add: digit_str_def)
      moreover have "s = sg @ ds @ ''.'' @ fr" using s body r by simp
      ultimately show ?thesis using sgn dsd unfolding numeric_form_def by blast
    qed
  qed
qed

lemma bitlen_bounds: "0 < n \<Longrightarrow> 2 ^ (bitlen n - 1) \<le> n \<and> n < 2 ^ bitlen n"
proof (induction n rule: bitlen.induct)
  case (1 n)
  show ?case
  proof (cases "n = 1")
    case True
    have "bitlen (1 div 2) = 0" by (simp add: bitlen.simps)
    then have "bitlen 1 = 1" by (subst bitlen.simps) simp
    then show ?thesis using True by simp
  next
    case False
    then have h: "0 < n div 2" using "1.prems" by simp
    have b: "bitlen n = Suc (bitlen (n div 2))" using "1.prems" by (subst bitlen.simps) simp
    have pos: "0 < bitlen (n div 2)" using h by (subst bitlen.simps) simp
    from "1.IH" h "1.prems" have lo: "2 ^ (bitlen (n div 2) - 1) \<le> n div 2"
      and hi: "n div 2 < 2 ^ bitlen (n div 2)" by simp_all
    have "2 ^ (bitlen n - 1) = (2::int) * 2 ^ (bitlen (n div 2) - 1)"
      using pos by (cases "bitlen (n div 2)") (simp_all add: b)
    also have "\<dots> \<le> 2 * (n div 2)" using lo by simp
    also have "\<dots> \<le> n" by simp
    finally have l: "2 ^ (bitlen n - 1) \<le> n" .
    have "n < 2 * (n div 2) + 2" by simp
    also have "\<dots> \<le> 2 * 2 ^ bitlen (n div 2)" using hi by simp
    finally have "n < 2 ^ bitlen n" by (simp add: b)
    then show ?thesis using l by simp
  qed
qed

lemma bitlen_pos: "0 < n \<Longrightarrow> 0 < bitlen n"
  by (subst bitlen.simps) simp

lemma bitlen_1: "bitlen 1 = 1"
proof -
  have "bitlen (1 div 2) = 0" by (simp add: bitlen.simps)
  then show ?thesis by (subst bitlen.simps) simp
qed

lemma floor_log2_int: "0 < n \<Longrightarrow> floor_log2 n 1 = int (bitlen n) - 1"
  using bitlen_bounds [of n] bitlen_pos [of n]
  by (simp add: floor_log2_def scale2_def bitlen_1 Let_def nat_diff_distrib')

lemma strip2_pow: "strip2 (n * 2 ^ j) j = (n, 0)"
  by (induction j) simp_all

lemma round_half_even_1: "round_half_even n 1 = n"
  by (simp add: round_half_even_def)

lemma binary64_exact_int:
  assumes "0 < n" and "n \<le> 2 ^ 53"
  shows "binary64 neg n 1 = JNum (if neg then - n else n) 0"
proof -
  define b where "b = bitlen n"
  have bp: "0 < b" and lo: "2 ^ (b - 1) \<le> n" and hi: "n < 2 ^ b"
    using bitlen_bounds [OF assms(1)] bitlen_pos [OF assms(1)] by (simp_all add: b_def)
  have fl: "floor_log2 n 1 = int b - 1" using floor_log2_int [OF assms(1)] by (simp add: b_def)
  have p: "(2::int) ^ (b - 1) \<le> 2 ^ 53" using lo assms(2) by (rule order_trans)
  have b54: "b - 1 \<le> 53" by (rule power_le_imp_le_exp [OF _ p]) simp
  show ?thesis
  proof (cases "b \<le> 53")
    case True
    define j where "j = 53 - b"
    have q: "max (floor_log2 n 1 - 52) (- 1074) = - int j"
      using True bp by (simp add: fl j_def)
    show ?thesis
    proof (cases "j = 0")
      case True
      then show ?thesis using assms(1) q
        by (simp add: binary64_def Let_def scale2_def round_half_even_1 finite64_def)
    next
      case False
      have sc: "scale2 n 1 (- int j) = (n * 2 ^ j, 1)" using False by (simp add: scale2_def)
      have nz: "n * 2 ^ j \<noteq> 0" using assms(1) by simp
      show ?thesis using assms(1) False nz
        by (simp add: binary64_def Let_def q sc round_half_even_1 finite64_def strip2_pow)
    qed
  next
    case False
    then have b: "b = 54" using b54 by simp
    then have "2 ^ 53 \<le> n" using lo by simp
    then have n: "n = 2 ^ 53" using assms(2) by simp
    have q: "max (floor_log2 n 1 - 52) (- 1074) = 1" by (simp add: fl b)
    have r: "round_half_even 9007199254740992 2 = 4503599627370496"
      by (simp add: round_half_even_def)
    show ?thesis
      unfolding binary64_def Let_def q
      by (simp add: n scale2_def r finite64_def)
  qed
qed

lemma binary64_zero: "binary64 neg 0 den = (if neg then JNegZero else JNum 0 0)"
  by (simp add: binary64_def)

lemma foldl_digits_nonneg:
  "0 \<le> a \<Longrightarrow> list_all is_digit ds \<Longrightarrow> 0 \<le> foldl (\<lambda>a c. 10 * a + digit_val c) a ds"
proof (induction ds arbitrary: a)
  case Nil
  then show ?case by simp
next
  case (Cons c ds)
  have "0 \<le> digit_val c" using Cons.prems(2) by (simp add: digit_val_def is_digit_def)
  then have "0 \<le> 10 * a + digit_val c" using Cons.prems(1) by simp
  then show ?case using Cons.IH Cons.prems(2) by simp
qed

lemma digits_val_nonneg: "digit_str ds \<Longrightarrow> 0 \<le> digits_val ds"
  by (simp add: digits_val_def digit_str_def foldl_digits_nonneg)

lemma parseInt10_signed:
  assumes "sign_str sg" "digit_str ds" "r = [] \<or> \<not> is_digit (hd r)"
  shows "parseInt10 (sg @ ds @ r) = binary64 (sg = ''-'') (digits_val ds) 1"
proof (cases "sg = []")
  case True
  have "hd (ds @ r) \<noteq> CHR ''-''"
    using assms(2) digit_str_hd [of ds] not_digit_minus by (cases ds) (auto simp: digit_str_def)
  then show ?thesis using True takeWhile_digits [OF assms(2,3)]
    by (simp add: parseInt10_def Let_def)
next
  case False
  then have "sg = ''-''" using assms(1) by (simp add: sign_str_def)
  then show ?thesis using takeWhile_digits [OF assms(2,3)]
    by (simp add: parseInt10_def Let_def)
qed

lemma parseFloat_core:
  assumes "sign_str sg" "body \<noteq> []" "hd body \<noteq> CHR ''-''"
    and "takeWhile is_digit body = ip" and "dropWhile is_digit body = r"
    and "fp = (if r \<noteq> [] \<and> hd r = CHR ''.'' then takeWhile is_digit (tl r) else [])"
  shows "parseFloat_dec (sg @ body)
           = binary64 (sg = ''-'') (digits_val (ip @ fp)) (10 ^ length fp)"
proof (cases "sg = []")
  case True
  show ?thesis
    unfolding parseFloat_dec_def Let_def True append_Nil
    using assms(2-) by simp
next
  case False
  then have sg: "sg = ''-''" using assms(1) by (simp add: sign_str_def)
  show ?thesis
    unfolding parseFloat_dec_def Let_def sg
    using assms(2-) by simp
qed

lemma parseFloat_int:
  assumes "sign_str sg" "digit_str ds"
  shows "parseFloat_dec (sg @ ds) = binary64 (sg = ''-'') (digits_val ds) 1"
proof -
  have ne: "ds \<noteq> []" using assms(2) by (simp add: digit_str_def)
  have hd: "hd ds \<noteq> CHR ''-''"
    using digit_str_hd [OF assms(2)] not_digit_minus by auto
  have t0: "takeWhile is_digit ds = ds" "dropWhile is_digit ds = []"
    using takeWhile_digits [OF assms(2), of "[]"] dropWhile_digits [OF assms(2), of "[]"]
    by simp_all
  have "parseFloat_dec (sg @ ds)
          = binary64 (sg = ''-'') (digits_val (ds @ [])) (10 ^ length ([]::string))"
    by (rule parseFloat_core [OF assms(1) ne hd t0]) simp
  then show ?thesis by simp
qed

lemma parseFloat_frac:
  assumes "sign_str sg" "digit_str ds" "digit_str fs"
  shows "parseFloat_dec (sg @ ds @ ''.'' @ fs)
           = binary64 (sg = ''-'') (digits_val (ds @ fs)) (10 ^ length fs)"
proof -
  have ne: "ds @ ''.'' @ fs \<noteq> []" by simp
  have hd: "hd (ds @ ''.'' @ fs) \<noteq> CHR ''-''"
    using digit_str_hd [OF assms(2)] not_digit_minus assms(2) by (cases ds) (auto simp: digit_str_def)
  have t1: "takeWhile is_digit (ds @ ''.'' @ fs) = ds"
       "dropWhile is_digit (ds @ ''.'' @ fs) = CHR ''.'' # fs"
    using takeWhile_digits [OF assms(2), of "CHR ''.'' # fs"]
      dropWhile_digits [OF assms(2), of "CHR ''.'' # fs"] by (simp_all add: not_digit_dot)
  have t2: "takeWhile is_digit fs = fs" using takeWhile_digits [OF assms(3), of "[]"] by simp
  have t3: "fs = (if CHR ''.'' # fs \<noteq> [] \<and> hd (CHR ''.'' # fs) = CHR ''.''
             then takeWhile is_digit (tl (CHR ''.'' # fs)) else [])"
    using t2 [symmetric] by simp
  show ?thesis by (rule parseFloat_core [OF assms(1) ne hd t1 t3])
qed

lemma binary64_safe_integer:
  assumes "0 \<le> n" and "n \<le> 2 ^ 53"
  shows "binary64 (sg = ''-'') n 1
           = (if n = 0 \<and> sg = ''-'' then JNegZero else JNum (signed sg n) 0)"
proof (cases "n = 0")
  case True
  then show ?thesis by (simp add: binary64_zero signed_def)
next
  case False
  then have "0 < n" using assms(1) by simp
  from binary64_exact_int [OF this assms(2)] show ?thesis using False by (simp add: signed_def)
qed

lemma numeric_form_iff: "numeric_form s \<longleftrightarrow> detectNumberKind s \<noteq> 0"
proof
  assume "numeric_form s"
  then show "detectNumberKind s \<noteq> 0"
    unfolding numeric_form_def using dnk_int dnk_dot dnk_frac by fastforce
next
  assume "detectNumberKind s \<noteq> 0"
  then show "numeric_form s" by (rule dnk_nonzero_form)
qed

lemma scalar_token_numeric:
  assumes "s \<noteq> []" and "is_digit (hd s) \<or> hd s = CHR ''-''" and "s \<noteq> ''~''"
  shows "scalar_token s"
  using assms by (auto simp: scalar_token_def wrapped_def is_digit_def)

lemma scalar_token_signed:
  assumes "sign_str sg" "digit_str ds"
  shows "scalar_token (sg @ ds @ r)"
proof (rule scalar_token_numeric)
  have ne: "ds \<noteq> []" using assms(2) by (simp add: digit_str_def)
  show "sg @ ds @ r \<noteq> []" using ne by simp
  show "is_digit (hd (sg @ ds @ r)) \<or> hd (sg @ ds @ r) = CHR ''-''"
    using assms(1) ne digit_str_hd [OF assms(2)] by (auto simp: sign_str_def)
  show "sg @ ds @ r \<noteq> ''~''"
  proof
    assume e: "sg @ ds @ r = ''~''"
    then have "hd (sg @ ds @ r) = CHR ''~''" by simp
    then show False using assms(1) ne digit_str_hd [OF assms(2)]
      by (auto simp: sign_str_def is_digit_def)
  qed
qed

lemma parseFieldValue_scalar:
  "scalar_token s \<Longrightarrow> parseFieldValue sch ln s fd = Inr (scalarValue sch s fd, [])"
  by (subst parseFieldValue.simps) (auto simp add: scalar_token_def wrapped_def)

lemma scalarValue_decimal:
  "f_typeExpr f = Some ''decimal'' \<Longrightarrow>
   scalarValue sch s (Some f) =
     (if detectNumberKind s = 3 then parseInt10 (butlast s)
      else if detectNumberKind s = 1 \<or> detectNumberKind s = 2 then parseFloat_dec s
      else JStr s)"
  by (simp add: scalarValue_def Let_def)

text \<open>
  C7, as amended. For a field declared \<open>decimal\<close> and a token that is not dispatched on
  its first and last character (not empty, not \<open>~\<close>, not wrapped in brackets, braces,
  parentheses or double quotes): an optional minus sign and digits, alone or followed by a
  single trailing dot, are coerced to the Number value of the signed integer that the
  digits denote, which is that integer itself up to \<open>2 ^ 53\<close> (and \<open>-0\<close> for a negated
  zero); an optional minus sign, digits, a dot and digits are coerced to the Number value
  of that decimal numeral; every other such token passes through as the raw string. The
  claim as written omits the minus sign, which \<open>detectNumberKind\<close> accepts for \<open>decimal\<close>
  as it does for \<open>int\<close>.
\<close>

theorem C7_decimal_coercion:
  assumes "f_typeExpr f = Some ''decimal''"
  shows "(\<forall>sg ds. sign_str sg \<and> digit_str ds \<longrightarrow>
            parseFieldValue sch ln (sg @ ds @ ''.'') (Some f)
              = Inr (binary64 (sg = ''-'') (digits_val ds) 1, []) \<and>
            parseFieldValue sch ln (sg @ ds) (Some f)
              = Inr (binary64 (sg = ''-'') (digits_val ds) 1, []) \<and>
            (digits_val ds \<le> 2 ^ 53 \<longrightarrow>
               binary64 (sg = ''-'') (digits_val ds) 1
                 = (if digits_val ds = 0 \<and> sg = ''-'' then JNegZero
                    else JNum (signed sg (digits_val ds)) 0))) \<and>
         (\<forall>sg ds fs. sign_str sg \<and> digit_str ds \<and> digit_str fs \<longrightarrow>
            parseFieldValue sch ln (sg @ ds @ ''.'' @ fs) (Some f)
              = Inr (binary64 (sg = ''-'') (digits_val (ds @ fs)) (10 ^ length fs), [])) \<and>
         (\<forall>s. scalar_token s \<and> \<not> numeric_form s \<longrightarrow>
            parseFieldValue sch ln s (Some f) = Inr (JStr s, []))"
proof (intro conjI allI impI)
  fix sg ds assume a: "sign_str sg \<and> digit_str ds"
  then have sg: "sign_str sg" and ds: "digit_str ds" by simp_all
  have "parseInt10 (butlast (sg @ ds @ ''.'')) = binary64 (sg = ''-'') (digits_val ds) 1"
    using parseInt10_signed [OF sg ds, of "[]"] by (simp add: butlast_append)
  then show "parseFieldValue sch ln (sg @ ds @ ''.'') (Some f)
              = Inr (binary64 (sg = ''-'') (digits_val ds) 1, [])"
    using scalar_token_signed [OF sg ds, of "''.''"] dnk_dot [OF sg ds]
    by (simp add: parseFieldValue_scalar scalarValue_decimal [OF assms])
  show "parseFieldValue sch ln (sg @ ds) (Some f)
              = Inr (binary64 (sg = ''-'') (digits_val ds) 1, [])"
    using scalar_token_signed [OF sg ds, of "[]"] dnk_int [OF sg ds] parseFloat_int [OF sg ds]
    by (simp add: parseFieldValue_scalar scalarValue_decimal [OF assms])
  assume "digits_val ds \<le> 2 ^ 53"
  then show "binary64 (sg = ''-'') (digits_val ds) 1
                 = (if digits_val ds = 0 \<and> sg = ''-'' then JNegZero
                    else JNum (signed sg (digits_val ds)) 0)"
    by (rule binary64_safe_integer [OF digits_val_nonneg [OF ds]])
next
  fix sg ds fs assume "sign_str sg \<and> digit_str ds \<and> digit_str fs"
  then have sg: "sign_str sg" and ds: "digit_str ds" and fs: "digit_str fs" by simp_all
  show "parseFieldValue sch ln (sg @ ds @ ''.'' @ fs) (Some f)
              = Inr (binary64 (sg = ''-'') (digits_val (ds @ fs)) (10 ^ length fs), [])"
    using scalar_token_signed [OF sg ds, of "''.'' @ fs"] dnk_frac [OF sg ds fs]
      parseFloat_frac [OF sg ds fs]
    by (simp add: parseFieldValue_scalar scalarValue_decimal [OF assms])
next
  fix s assume "scalar_token s \<and> \<not> numeric_form s"
  then have st: "scalar_token s" and "detectNumberKind s = 0"
    by (simp_all add: numeric_form_iff)
  then show "parseFieldValue sch ln s (Some f) = Inr (JStr s, [])"
    by (simp add: parseFieldValue_scalar scalarValue_decimal [OF assms])
qed

text \<open>
  \<open>500.\<close> and \<open>-12\<close> are below \<open>2 ^ 53\<close> and come out as they are written; \<open>1.50\<close> is
  \<open>3 / 2\<close>, a binary64 value; \<open>9007199254740993\<close> is \<open>2 ^ 53 + 1\<close>, halfway between two
  binary64 values, and comes out as \<open>2 ^ 53\<close>; \<open>0.1\<close> comes out as the binary64 value next
  to one tenth; \<open>1.5e3\<close> is no numeral of the three shapes and stays a string.
\<close>

theorem C7_decimal_coercion_witness:
  "parseFieldValue new_MaxiSchema 1 ''500.'' (Some (typeExpr_fd ''decimal'')) = Inr (JNum 500 0, []) \<and>
   parseFieldValue new_MaxiSchema 1 ''-12'' (Some (typeExpr_fd ''decimal'')) = Inr (JNum (- 12) 0, []) \<and>
   parseFieldValue new_MaxiSchema 1 ''1.50'' (Some (typeExpr_fd ''decimal'')) = Inr (JNum 15 1, []) \<and>
   parseFieldValue new_MaxiSchema 1 ''9007199254740993'' (Some (typeExpr_fd ''decimal''))
     = Inr (JNum 9007199254740992 0, []) \<and>
   parseFieldValue new_MaxiSchema 1 ''0.1'' (Some (typeExpr_fd ''decimal''))
     = Inr (JNum 1000000000000000055511151231257827021181583404541015625 55, []) \<and>
   parseFieldValue new_MaxiSchema 1 ''1.5e3'' (Some (typeExpr_fd ''decimal''))
     = Inr (JStr ''1.5e3'', [])"
proof -
  have f: "f_typeExpr (typeExpr_fd ''decimal'') = Some ''decimal''"
    by (simp add: typeExpr_fd_def)
  note c = C7_decimal_coercion [OF f, of new_MaxiSchema 1]
  have d500: "digit_str ''500''" and d12: "digit_str ''12''" and d1: "digit_str ''1''"
    and d50: "digit_str ''50''" and d0: "digit_str ''0''"
    and dbig: "digit_str ''9007199254740993''"
    by (simp_all add: digit_str_def is_digit_def)
  have s0: "sign_str []" and s1: "sign_str ''-''" by (simp_all add: sign_str_def)
  have v500: "digits_val ''500'' = 500" and v12: "digits_val ''12'' = 12"
    and v150: "digits_val ''150'' = 150" and v01: "digits_val ''01'' = 1"
    and vbig: "digits_val ''9007199254740993'' = 9007199254740993"
    by (simp_all add: digits_val_def digit_val_def)
  have r150: "binary64 False 150 100 = JNum 15 1" by code_simp
  have r01: "binary64 False 1 10
               = JNum 1000000000000000055511151231257827021181583404541015625 55" by code_simp
  have rbig: "binary64 False 9007199254740993 1 = JNum 9007199254740992 0" by code_simp
  have a: "parseFieldValue new_MaxiSchema 1 ''500.'' (Some (typeExpr_fd ''decimal''))
             = Inr (JNum 500 0, [])"
    using c [THEN conjunct1, rule_format, of "[]" "''500''"] s0 d500
    by (simp add: v500 signed_def)
  have b: "parseFieldValue new_MaxiSchema 1 ''-12'' (Some (typeExpr_fd ''decimal''))
             = Inr (JNum (- 12) 0, [])"
    using c [THEN conjunct1, rule_format, of "''-''" "''12''"] s1 d12
    by (simp add: v12 signed_def)
  have d: "parseFieldValue new_MaxiSchema 1 ''1.50'' (Some (typeExpr_fd ''decimal''))
             = Inr (JNum 15 1, [])"
    using c [THEN conjunct2, THEN conjunct1, rule_format, of "[]" "''1''" "''50''"] s0 d1 d50
    by (simp add: v150 r150)
  have g: "parseFieldValue new_MaxiSchema 1 ''9007199254740993'' (Some (typeExpr_fd ''decimal''))
             = Inr (JNum 9007199254740992 0, [])"
    using c [THEN conjunct1, rule_format, of "[]" "''9007199254740993''"] s0 dbig
    by (simp add: vbig rbig)
  have h: "parseFieldValue new_MaxiSchema 1 ''0.1'' (Some (typeExpr_fd ''decimal''))
             = Inr (JNum 1000000000000000055511151231257827021181583404541015625 55, [])"
    using c [THEN conjunct2, THEN conjunct1, rule_format, of "[]" "''0''" "''1''"] s0 d0 d1
    by (simp add: v01 r01)
  have "scalar_token ''1.5e3''" by (simp add: scalar_token_def wrapped_def)
  moreover have "\<not> numeric_form ''1.5e3''"
    by (simp add: numeric_form_iff detectNumberKind_def is_digit_def)
  ultimately have e: "parseFieldValue new_MaxiSchema 1 ''1.5e3'' (Some (typeExpr_fd ''decimal''))
             = Inr (JStr ''1.5e3'', [])"
    using c [THEN conjunct2, THEN conjunct2, rule_format, of "''1.5e3''"] by simp
  show ?thesis by (intro conjI a b d g h e)
qed

text \<open>
  The token \<open>-5\<close> is none of the three shapes of the claim (it does not start with a
  digit), yet against a \<open>decimal\<close> field it is coerced to the number \<open>-5\<close>, not passed
  through as the string.
\<close>

theorem C7_signed_token_counterexample:
  "\<not> is_digit (hd ''-5'') \<and>
   parseFieldValue new_MaxiSchema 1 ''-5'' (Some (typeExpr_fd ''decimal'')) = Inr (JNum (- 5) 0, []) \<and>
   parseFieldValue new_MaxiSchema 1 ''-5'' (Some (typeExpr_fd ''decimal'')) \<noteq> Inr (JStr ''-5'', [])"
  by code_simp
section \<open>Numbers: evaluated examples\<close>

text \<open>
  Ties go to the even significand; a numeral from \<open>2 ^ 1024 - 2 ^ 970\<close> on is \<open>Infinity\<close>;
  \<open>String\<close> writes the shortest digits that read back as the same value.
\<close>

lemma binary64_examples:
  "binary64 False 9007199254740993 1 = JNum 9007199254740992 0"
  "binary64 False 9007199254740995 1 = JNum 9007199254740996 0"
  "binary64 True 15 10 = JNum (- 15) 1"
  "binary64 False 3 10 = JNum 299999999999999988897769753748434595763683319091796875 54"
  "binary64 True 0 1 = JNegZero"
  "binary64 False (2 ^ 1024) 1 = JInf False"
  by code_simp+

lemma js_String_examples:
  "js_String (binary64 False 1 10) = ''0.1''"
  "js_String (binary64 False 1234567890123456789 (10 ^ 19)) = ''0.12345678901234568''"
  "js_String (binary64 False 1 (10 ^ 7)) = ''1e-7''"
  "js_String (binary64 False (10 ^ 21) 1) = ''1e+21''"
  "js_String (binary64 False 123456789012345678901 1) = ''123456789012345680000''"
  "js_String (binary64 True 0 1) = ''0''"
  by code_simp+

text \<open>
  The keys of a map are parsed like values and written back with \<open>String\<close>; an object
  enumerates its integer keys first, in ascending order.
\<close>

lemma map_keys_example:
  "parseFieldValue new_MaxiSchema 1 ''{b:1,2:x,0.0000001:y,1000000000000000000000:z,-0:w}''
     (Some (typeExpr_fd ''map''))
   = Inr (JObj [(''0'', JStr ''w''), (''2'', JStr ''x''), (''b'', JNum 1 0),
                (''1e-7'', JStr ''y''), (''1e+21'', JStr ''z'')], [])"
  by code_simp

section \<open>Facts about the record parser\<close>

lemma mapM_res_length:
  "mapM_res f xs = Inr (vs, ws) \<Longrightarrow> length vs = length xs"
  by (induction xs arbitrary: vs ws) (auto split: sum.splits prod.splits)

lemma mapM_res_nth:
  "mapM_res f xs = Inr (vs, ws) \<Longrightarrow> i < length xs \<Longrightarrow> \<exists>w. f (xs ! i) = Inr (vs ! i, w)"
proof (induction xs arbitrary: vs ws i)
  case Nil
  then show ?case by simp
next
  case (Cons x xs)
  then show ?case by (cases i) (auto split: sum.splits prod.splits)
qed

lemma mapM_res_Inl:
  "mapM_res f xs = Inl e \<Longrightarrow> \<exists>x \<in> set xs. f x = Inl e"
  by (induction xs) (auto split: sum.splits prod.splits)

lemma mapM_res_Inr:
  "(\<And>x. x \<in> set xs \<Longrightarrow> \<exists>r. f x = Inr r) \<Longrightarrow> \<exists>r. mapM_res f xs = Inr r"
proof (induction xs)
  case Nil
  show ?case by simp
next
  case (Cons x xs)
  obtain v w where "f x = Inr (v, w)" using Cons.prems [of x] by auto
  moreover obtain vs ws where "mapM_res f xs = Inr (vs, ws)" using Cons by fastforce
  ultimately show ?case by simp
qed

lemma mapM_res_first_Inl:
  "x \<in> set xs \<Longrightarrow> f x = Inl e \<Longrightarrow> (\<And>y. y \<in> set xs \<Longrightarrow> f y = Inl e \<or> (\<exists>r. f y = Inr r))
     \<Longrightarrow> mapM_res f xs = Inl e"
proof (induction xs)
  case Nil
  then show ?case by simp
next
  case (Cons y ys)
  show ?case
  proof (cases "f y")
    case (Inl e')
    then show ?thesis using Cons.prems(3) [of y] by auto
  next
    case (Inr r)
    then have "x \<in> set ys" using Cons.prems(1,2) by auto
    then have "mapM_res f ys = Inl e" using Cons by auto
    then show ?thesis using Inr by (cases r) simp
  qed
qed

lemma parseFieldValues_length:
  "parseFieldValues sch ln valuesStr td = Inr (vs, ws) \<Longrightarrow> length vs = length (valueStrings valuesStr)"
  by (subst (asm) parseFieldValues.simps) (auto dest: mapM_res_length)

lemma parseFieldValues_nth:
  assumes "parseFieldValues sch ln valuesStr td = Inr (vs, ws)" and "i < length (valueStrings valuesStr)"
  shows "\<exists>w. parseFieldValue sch ln (token valuesStr i) (field_at td i) = Inr (vs ! i, w)"
proof -
  let ?xs = "enumerate 0 (valueStrings valuesStr)"
  have m: "mapM_res (\<lambda>(i, raw). parseFieldValue sch ln
                            (if isSimple valuesStr then raw else fastTrim raw) (field_at td i)) ?xs
            = Inr (vs, ws)"
    using assms(1) by (subst (asm) parseFieldValues.simps)
  have i: "i < length ?xs" using assms(2) by simp
  have "?xs ! i = (i, valueStrings valuesStr ! i)" using assms(2) by (simp add: nth_enumerate_eq)
  with mapM_res_nth [OF m i] show ?thesis by (simp add: token_def)
qed

lemma parseFieldValue_empty:
  "parseFieldValue sch ln [] (Some f) = Inr (default_or_null f, [])"
  by (subst parseFieldValue.simps) simp

lemma backfill_default: "backfill f (Some (default_or_null f)) = default_or_null f"
  by (simp add: backfill_def)

lemma backfill_None: "backfill f None = default_or_null f"
  by (simp add: backfill_def)

lemma findIndex_Some:
  "findIndex P xs = Some k \<Longrightarrow> k < length xs \<and> P (xs ! k) \<and> (\<forall>j<k. \<not> P (xs ! j))"
proof (induction xs arbitrary: k)
  case Nil
  then show ?case by simp
next
  case (Cons x xs)
  show ?case
  proof (cases "P x")
    case True
    then show ?thesis using Cons.prems by simp
  next
    case False
    then obtain k' where k': "findIndex P xs = Some k'" "k = Suc k'"
      using Cons.prems by auto
    from Cons.IH [OF k'(1)] False k'(2) show ?thesis
      by (auto simp: nth_Cons split: nat.splits)
  qed
qed

lemma findIndex_None: "findIndex P xs = None \<longleftrightarrow> (\<forall>x \<in> set xs. \<not> P x)"
  by (induction xs) auto

lemma missingBeyond_iff:
  "missingBeyond flds n \<longleftrightarrow>
     (\<exists>i. n \<le> i \<and> i < length flds \<and> isRequired (flds ! i) \<and> f_defaultValue (flds ! i) = None)"
proof
  assume "missingBeyond flds n"
  then obtain f where f: "f \<in> set (drop n flds)" "isRequired f" "f_defaultValue f = None"
    by (auto simp: missingBeyond_def list_ex_iff)
  from f(1) obtain j where j: "j < length (drop n flds)" "drop n flds ! j = f"
    by (auto simp: in_set_conv_nth)
  then have "n \<le> n + j" "n + j < length flds" "flds ! (n + j) = f" by auto
  with f(2,3) show "\<exists>i. n \<le> i \<and> i < length flds \<and> isRequired (flds ! i)
      \<and> f_defaultValue (flds ! i) = None" by blast
next
  assume "\<exists>i. n \<le> i \<and> i < length flds \<and> isRequired (flds ! i) \<and> f_defaultValue (flds ! i) = None"
  then obtain i where i: "n \<le> i" "i < length flds" "isRequired (flds ! i)"
    "f_defaultValue (flds ! i) = None" by blast
  have "drop n flds ! (i - n) = flds ! i" using i(1,2) by simp
  moreover have "i - n < length (drop n flds)" using i(1,2) by simp
  ultimately have "flds ! i \<in> set (drop n flds)" by (metis nth_mem)
  with i(3,4) show "missingBeyond flds n" by (auto simp: missingBeyond_def list_ex_iff)
qed

lemma mapM_res_map:
  "(\<And>x. x \<in> set xs \<Longrightarrow> \<exists>w. f x = Inr (g x, w)) \<Longrightarrow> \<exists>ws. mapM_res f xs = Inr (map g xs, ws)"
proof (induction xs)
  case Nil
  show ?case by simp
next
  case (Cons x xs)
  obtain w where "f x = Inr (g x, w)" using Cons.prems [of x] by auto
  moreover obtain ws where "mapM_res f xs = Inr (map g xs, ws)" using Cons by fastforce
  ultimately show ?case by simp
qed

lemma fillField_cases:
  "fillField sch ln flds vals i =
     (if isRequired (flds ! i) \<and> filled flds vals i = JNull then
        (if s_mode sch = ''strict'' then Inl (MaxiError MissingRequiredFieldError (Some ln))
         else Inr (filled flds vals i, [Warning MissingRequiredFieldError (Some ln)]))
      else Inr (filled flds vals i, []))"
  by (simp add: fillField_def filled_def Let_def)

lemma fill_strict_err:
  assumes "s_mode sch = ''strict''"
    and "\<exists>i < length flds. isRequired (flds ! i) \<and> filled flds vals i = JNull"
  shows "mapM_res (fillField sch ln flds vals) [0 ..< length flds]
           = Inl (MaxiError MissingRequiredFieldError (Some ln))"
proof -
  from assms(2) obtain i where i: "i < length flds" "isRequired (flds ! i)"
    "filled flds vals i = JNull" by blast
  show ?thesis
  proof (rule mapM_res_first_Inl [of i])
    show "i \<in> set [0 ..< length flds]" using i(1) by simp
    show "fillField sch ln flds vals i = Inl (MaxiError MissingRequiredFieldError (Some ln))"
      using i(2,3) assms(1) by (simp add: fillField_cases)
    fix y assume "y \<in> set [0 ..< length flds]"
    show "fillField sch ln flds vals y = Inl (MaxiError MissingRequiredFieldError (Some ln))
        \<or> (\<exists>r. fillField sch ln flds vals y = Inr r)"
      by (simp add: fillField_cases)
  qed
qed

lemma fill_Inr:
  assumes "s_mode sch \<noteq> ''strict'' \<or> (\<forall>i < length flds. \<not> (isRequired (flds ! i) \<and> filled flds vals i = JNull))"
  shows "\<exists>w. mapM_res (fillField sch ln flds vals) [0 ..< length flds]
           = Inr (map (filled flds vals) [0 ..< length flds], w)"
proof (rule mapM_res_map)
  fix x assume "x \<in> set [0 ..< length flds]"
  then have "x < length flds" by simp
  then show "\<exists>w. fillField sch ln flds vals x = Inr (filled flds vals x, w)"
    using assms by (auto simp: fillField_cases)
qed

lemma patchType_strict: "s_mode sch = ''strict'' \<Longrightarrow> patchType sch td vs = vs"
  by (simp add: patchType_def)

lemma patchType_no_apply:
  "s_mode sch = ''strict'' \<or> findIndex (\<lambda>f. f_name f = ''type'') (t_fields td) = None
     \<or> length vs + 1 \<noteq> length (t_fields td) \<Longrightarrow> patchType sch td vs = vs"
  by (auto simp: patchType_def split: option.splits)

lemma patchType_apply:
  "s_mode sch \<noteq> ''strict'' \<Longrightarrow> findIndex (\<lambda>f. f_name f = ''type'') (t_fields td) = Some k
     \<Longrightarrow> length vs + 1 = length (t_fields td)
     \<Longrightarrow> patchType sch td vs = take k vs @ [inferredType td (t_fields td ! k)] @ drop k vs"
  by (simp add: patchType_def)

lemma psr_known:
  assumes "getType sch alias = Some td"
    and "parseFieldValues sch ln valuesStr (Some td) = Inr (vs, ws)"
  shows "parseSingleRecord sch alias valuesStr ln =
     (if s_mode sch = ''strict'' \<and> length (patchType sch td vs) < length (t_fields td)
           \<and> missingBeyond (t_fields td) (length (patchType sch td vs))
        then Inl (MaxiError MissingRequiredFieldError (Some ln))
      else if s_mode sch = ''strict'' \<and> length (patchType sch td vs) > length (t_fields td)
        then Inl (MaxiError SchemaMismatchError (Some ln))
      else
        (case mapM_res (fillField sch ln (t_fields td) (patchType sch td vs))
                [0 ..< length (t_fields td)] of
           Inl e \<Rightarrow> Inl e
         | Inr (finalValues, ws') \<Rightarrow>
             Inr (\<lparr>r_alias = alias, r_values = finalValues, r_lineNumber = ln\<rparr>, ws @ ws')))"
  using assms by (simp add: parseSingleRecord_def Let_def)

lemma psr_known_Inl:
  assumes "getType sch alias = Some td"
    and "parseFieldValues sch ln valuesStr (Some td) = Inl e"
  shows "parseSingleRecord sch alias valuesStr ln = Inl e"
  using assms by (simp add: parseSingleRecord_def)

lemma psr_Inr_values:
  assumes "getType sch alias = Some td"
    and "parseSingleRecord sch alias valuesStr ln = Inr (rec, ws')"
  shows "\<exists>vs ws. parseFieldValues sch ln valuesStr (Some td) = Inr (vs, ws) \<and>
           r_values rec = map (filled (t_fields td) (patchType sch td vs)) [0 ..< length (t_fields td)]"
proof -
  obtain vs ws where p: "parseFieldValues sch ln valuesStr (Some td) = Inr (vs, ws)"
    using assms psr_known_Inl [OF assms(1)]
    by (cases "parseFieldValues sch ln valuesStr (Some td)") auto
  let ?vals = "patchType sch td vs" and ?flds = "t_fields td"
  note k = psr_known [OF assms(1) p]
  have nostrict: "s_mode sch \<noteq> ''strict'' \<or>
      (\<forall>i < length ?flds. \<not> (isRequired (?flds ! i) \<and> filled ?flds ?vals i = JNull))"
  proof (rule ccontr)
    assume "\<not> ?thesis"
    then have s: "s_mode sch = ''strict''"
      and e: "\<exists>i < length ?flds. isRequired (?flds ! i) \<and> filled ?flds ?vals i = JNull" by auto
    have "\<exists>e. parseSingleRecord sch alias valuesStr ln = Inl e"
      unfolding k using fill_strict_err [OF s e, of ln] by simp
    with assms(2) show False by simp
  qed
  from fill_Inr [OF nostrict, of ln] obtain w where
    "mapM_res (fillField sch ln ?flds ?vals) [0 ..< length ?flds]
       = Inr (map (filled ?flds ?vals) [0 ..< length ?flds], w)" by blast
  then have "r_values rec = map (filled ?flds ?vals) [0 ..< length ?flds]"
    using assms(2) unfolding k by (auto split: if_splits)
  with p show ?thesis by blast
qed

section \<open>Field counts in strict and lax mode\<close>

text \<open>
  Claim C5, as amended. For a record of a known type whose value tokens are all coerced
  without error: in strict mode, more tokens than fields is fatal with the
  schema-mismatch code; in strict mode, fewer tokens than fields is fatal with the
  missing-required-field code exactly when some required field resolves to null, that
  is, when a field beyond the supplied count is required and has no default, or a
  required field within the supplied count has a token that is back-filled to null
  (\<open>~\<close>, or empty with no default), and otherwise the record is built; in lax mode,
  tokens in excess of the field count raise no count error and the stored values are
  those of the first tokens only.
\<close>

theorem C5_strict_field_count:
  assumes "getType sch alias = Some td"
    and "parseFieldValues sch ln valuesStr (Some td) = Inr (vs, ws)"
  shows
   "(s_mode sch = ''strict'' \<and> length (t_fields td) < length (valueStrings valuesStr) \<longrightarrow>
       parseSingleRecord sch alias valuesStr ln = Inl (MaxiError SchemaMismatchError (Some ln))) \<and>
    (s_mode sch = ''strict'' \<and> length (valueStrings valuesStr) < length (t_fields td) \<longrightarrow>
       (parseSingleRecord sch alias valuesStr ln = Inl (MaxiError MissingRequiredFieldError (Some ln))
          \<longleftrightarrow>
        (\<exists>i. length (valueStrings valuesStr) \<le> i \<and> i < length (t_fields td) \<and>
              isRequired (t_fields td ! i) \<and> f_defaultValue (t_fields td ! i) = None) \<or>
        (\<exists>i < length (valueStrings valuesStr).
              isRequired (t_fields td ! i) \<and> backfill (t_fields td ! i) (Some (vs ! i)) = JNull)) \<and>
       (parseSingleRecord sch alias valuesStr ln = Inl (MaxiError MissingRequiredFieldError (Some ln))
          \<or> (\<exists>rec ws'. parseSingleRecord sch alias valuesStr ln = Inr (rec, ws')))) \<and>
    (s_mode sch \<noteq> ''strict'' \<and> length (t_fields td) \<le> length (valueStrings valuesStr) \<longrightarrow>
       (\<exists>ws'. parseSingleRecord sch alias valuesStr ln =
          Inr (\<lparr>r_alias = alias,
                r_values = map (\<lambda>i. backfill (t_fields td ! i) (Some (vs ! i)))
                             [0 ..< length (t_fields td)],
                r_lineNumber = ln\<rparr>, ws')))"
proof (intro conjI impI)
  let ?flds = "t_fields td"
  let ?n = "length (valueStrings valuesStr)"
  have n: "length vs = ?n" using assms(2) by (rule parseFieldValues_length)
  note k = psr_known [OF assms]
  {
    assume a: "s_mode sch = ''strict'' \<and> length ?flds < ?n"
    then show "parseSingleRecord sch alias valuesStr ln = Inl (MaxiError SchemaMismatchError (Some ln))"
      unfolding k using n by (simp add: patchType_strict)
  }
  {
    assume a: "s_mode sch = ''strict'' \<and> ?n < length ?flds"
    then have s: "s_mode sch = ''strict''" and lt: "?n < length ?flds" by simp_all
    have p: "patchType sch td vs = vs" using s by (rule patchType_strict)
    let ?beyond = "\<exists>i. ?n \<le> i \<and> i < length ?flds \<and> isRequired (?flds ! i)
                      \<and> f_defaultValue (?flds ! i) = None"
    let ?within = "\<exists>i < ?n. isRequired (?flds ! i) \<and> backfill (?flds ! i) (Some (vs ! i)) = JNull"
    let ?null = "\<exists>i < length ?flds. isRequired (?flds ! i) \<and> filled ?flds vs i = JNull"
    have null_iff: "?null \<longleftrightarrow> ?beyond \<or> ?within"
    proof
      assume ?null
      then obtain i where i: "i < length ?flds" "isRequired (?flds ! i)" "filled ?flds vs i = JNull"
        by blast
      show "?beyond \<or> ?within"
      proof (cases "i < ?n")
        case True
        then have "backfill (?flds ! i) (Some (vs ! i)) = JNull" using i(3) n by (simp add: filled_def)
        with True i(2) show ?thesis by blast
      next
        case False
        then have "default_or_null (?flds ! i) = JNull" using i(3) n by (simp add: filled_def backfill_None)
        then have "f_defaultValue (?flds ! i) = None"
          by (simp add: default_or_null_def split: option.splits)
        moreover have "?n \<le> i" using False by simp
        ultimately have ?beyond using i(1,2) by blast
        then show ?thesis ..
      qed
    next
      assume "?beyond \<or> ?within"
      then show ?null
      proof
        assume ?beyond
        then obtain i where i: "?n \<le> i" "i < length ?flds" "isRequired (?flds ! i)"
          "f_defaultValue (?flds ! i) = None" by blast
        then have "filled ?flds vs i = JNull"
          using n by (simp add: filled_def backfill_None default_or_null_def)
        with i(2,3) show ?null by blast
      next
        assume ?within
        then obtain i where i: "i < ?n" "isRequired (?flds ! i)"
          "backfill (?flds ! i) (Some (vs ! i)) = JNull" by blast
        then have "filled ?flds vs i = JNull" using n by (simp add: filled_def)
        moreover have "i < length ?flds" using i(1) lt by simp
        ultimately show ?null using i(2) by blast
      qed
    qed
    have res: "parseSingleRecord sch alias valuesStr ln =
       (if ?null then Inl (MaxiError MissingRequiredFieldError (Some ln))
        else (case mapM_res (fillField sch ln ?flds vs) [0 ..< length ?flds] of
                Inl e \<Rightarrow> Inl e
              | Inr (finalValues, ws') \<Rightarrow>
                  Inr (\<lparr>r_alias = alias, r_values = finalValues, r_lineNumber = ln\<rparr>, ws @ ws')))"
    proof (cases ?null)
      case True
      have "mapM_res (fillField sch ln ?flds vs) [0 ..< length ?flds]
              = Inl (MaxiError MissingRequiredFieldError (Some ln))"
        using s True by (rule fill_strict_err)
      then show ?thesis unfolding k p using True s lt n by simp
    next
      case False
      then have "\<not> ?beyond" using null_iff by blast
      then have "\<not> missingBeyond ?flds ?n" by (simp add: missingBeyond_iff)
      then show ?thesis unfolding k p using False s lt n by auto
    qed
    have ok: "\<not> ?null \<Longrightarrow> \<exists>rec ws'. parseSingleRecord sch alias valuesStr ln = Inr (rec, ws')"
    proof -
      assume nn: "\<not> ?null"
      then have "s_mode sch \<noteq> ''strict'' \<or>
          (\<forall>i < length ?flds. \<not> (isRequired (?flds ! i) \<and> filled ?flds vs i = JNull))" by blast
      from fill_Inr [OF this, of ln] obtain w where
        "mapM_res (fillField sch ln ?flds vs) [0 ..< length ?flds]
           = Inr (map (filled ?flds vs) [0 ..< length ?flds], w)" by blast
      then show ?thesis unfolding res using nn by simp
    qed
    show "(parseSingleRecord sch alias valuesStr ln = Inl (MaxiError MissingRequiredFieldError (Some ln)))
            \<longleftrightarrow> ?beyond \<or> ?within"
    proof (cases ?null)
      case True
      then show ?thesis using res null_iff by simp
    next
      case False
      then show ?thesis using ok [OF False] null_iff by auto
    qed
    show "parseSingleRecord sch alias valuesStr ln = Inl (MaxiError MissingRequiredFieldError (Some ln))
          \<or> (\<exists>rec ws'. parseSingleRecord sch alias valuesStr ln = Inr (rec, ws'))"
      using res ok by (cases ?null) auto
  }
  {
    assume a: "s_mode sch \<noteq> ''strict'' \<and> length ?flds \<le> ?n"
    then have s: "s_mode sch \<noteq> ''strict''" and le: "length ?flds \<le> ?n" by simp_all
    have p: "patchType sch td vs = vs"
      using le n by (intro patchType_no_apply) simp
    have "s_mode sch \<noteq> ''strict'' \<or>
          (\<forall>i < length ?flds. \<not> (isRequired (?flds ! i) \<and> filled ?flds vs i = JNull))"
      using s by simp
    from fill_Inr [OF this, of ln] obtain w where w:
      "mapM_res (fillField sch ln ?flds vs) [0 ..< length ?flds]
         = Inr (map (filled ?flds vs) [0 ..< length ?flds], w)" by blast
    have m: "map (filled ?flds vs) [0 ..< length ?flds]
           = map (\<lambda>i. backfill (?flds ! i) (Some (vs ! i))) [0 ..< length ?flds]"
      using le n by (simp add: filled_def)
    show "\<exists>ws'. parseSingleRecord sch alias valuesStr ln =
          Inr (\<lparr>r_alias = alias,
                r_values = map (\<lambda>i. backfill (?flds ! i) (Some (vs ! i))) [0 ..< length ?flds],
                r_lineNumber = ln\<rparr>, ws')"
      unfolding k p using s w m by simp
  }
qed

theorem C5_strict_field_count_witness:
  "parseSingleRecord (ex_schema ''strict'') ''U'' ''1|a|b'' 7
     = Inl (MaxiError SchemaMismatchError (Some 7)) \<and>
   parseSingleRecord (ex_schema ''strict'') ''R'' ''1'' 7
     = Inl (MaxiError MissingRequiredFieldError (Some 7)) \<and>
   map_sum id fst (parseSingleRecord (ex_schema ''lax'') ''U'' ''1|a|b|c'' 7)
     = Inr \<lparr>r_alias = ''U'', r_values = [JNum 1 0, JStr ''a''], r_lineNumber = 7\<rparr>"
proof -
  have gU: "getType (ex_schema m) ''U'' = Some ex_U" and gR: "getType (ex_schema m) ''R'' = Some ex_R"
    for m by (simp_all add: getType_def ex_schema_def)
  have p1: "parseFieldValues (ex_schema ''strict'') 7 ''1|a|b'' (Some ex_U)
              = Inr ([JNum 1 0, JStr ''a'', JStr ''b''], [])" by code_simp
  have p2: "parseFieldValues (ex_schema ''strict'') 7 ''1'' (Some ex_R) = Inr ([JStr ''1''], [])"
    by code_simp
  have p3: "parseFieldValues (ex_schema ''lax'') 7 ''1|a|b|c'' (Some ex_U)
              = Inr ([JNum 1 0, JStr ''a'', JStr ''b'', JStr ''c''], [])" by code_simp
  have m: "s_mode (ex_schema ''strict'') = ''strict''" "s_mode (ex_schema ''lax'') \<noteq> ''strict''"
    by (simp_all add: ex_schema_def)
  have l1: "length (t_fields ex_U) < length (valueStrings ''1|a|b'')" by code_simp
  have l2: "length (valueStrings ''1'') < length (t_fields ex_R)" by code_simp
  have l3: "length (t_fields ex_U) \<le> length (valueStrings ''1|a|b|c'')" by code_simp
  have b2: "\<exists>i. length (valueStrings ''1'') \<le> i \<and> i < length (t_fields ex_R) \<and>
              isRequired (t_fields ex_R ! i) \<and> f_defaultValue (t_fields ex_R ! i) = None"
  proof (intro exI [of _ 1] conjI)
    show "length (valueStrings ''1'') \<le> 1" by code_simp
    show "1 < length (t_fields ex_R)" by code_simp
    show "isRequired (t_fields ex_R ! 1)" by code_simp
    show "f_defaultValue (t_fields ex_R ! 1) = None" by code_simp
  qed
  have a: "parseSingleRecord (ex_schema ''strict'') ''U'' ''1|a|b'' 7
     = Inl (MaxiError SchemaMismatchError (Some 7))"
    using C5_strict_field_count [OF gU p1] m l1 by blast
  have b: "parseSingleRecord (ex_schema ''strict'') ''R'' ''1'' 7
     = Inl (MaxiError MissingRequiredFieldError (Some 7))"
    using C5_strict_field_count [OF gR p2] m l2 b2 by blast
  have v: "map (\<lambda>i. backfill (t_fields ex_U ! i)
                (Some ([JNum 1 0, JStr ''a'', JStr ''b'', JStr ''c''] ! i)))
              [0 ..< length (t_fields ex_U)] = [JNum 1 0, JStr ''a'']" by code_simp
  have "\<exists>ws'. parseSingleRecord (ex_schema ''lax'') ''U'' ''1|a|b|c'' 7 =
          Inr (\<lparr>r_alias = ''U'', r_values = [JNum 1 0, JStr ''a''], r_lineNumber = 7\<rparr>, ws')"
    using C5_strict_field_count [OF gU p3] m l3 unfolding v by blast
  then have c: "map_sum id fst (parseSingleRecord (ex_schema ''lax'') ''U'' ''1|a|b|c'' 7)
     = Inr \<lparr>r_alias = ''U'', r_values = [JNum 1 0, JStr ''a''], r_lineNumber = 7\<rparr>"
    by auto
  show ?thesis using a b c by simp
qed

text \<open>
  In strict mode the record \<open>U(~)\<close> of the type \<open>U:User(id:int(!)|name)\<close> supplies one
  token for two fields, and the only field beyond the supplied count, \<open>name\<close>, is not
  required; the record is fatal with the missing-required-field code all the same,
  because the required field \<open>id\<close> is explicitly null.
\<close>

theorem C5_null_token_counterexample:
  "s_mode (ex_schema ''strict'') = ''strict'' \<and>
   getType (ex_schema ''strict'') ''U'' = Some ex_U \<and>
   length (valueStrings ''~'') = 1 \<and> length (t_fields ex_U) = 2 \<and>
   \<not> isRequired (t_fields ex_U ! 1) \<and>
   parseSingleRecord (ex_schema ''strict'') ''U'' ''~'' 7
     = Inl (MaxiError MissingRequiredFieldError (Some 7))"
  by code_simp

section \<open>Inference of the \<open>type\<close> field in lax mode\<close>

text \<open>
  Claim C6. In lax mode, for a record of a known type whose field list has a field
  named \<open>type\<close> (the first such field, at position \<open>k\<close>), when the number of value
  tokens is one less than the number of fields, the record is built and its value at
  position \<open>k\<close> is the field's declared default if there is one, otherwise the type's
  display name lower-cased if it has one, otherwise the alias lower-cased; the values
  before \<open>k\<close> are those of the tokens at the same position, the values after \<open>k\<close> those
  of the tokens one position to the left. (An alias is an identifier, hence not empty.)
\<close>

theorem C6_type_inference:
  assumes "s_mode sch \<noteq> ''strict''"
    and "getType sch alias = Some td"
    and "findIndex (\<lambda>f. f_name f = ''type'') (t_fields td) = Some k"
    and "parseFieldValues sch ln valuesStr (Some td) = Inr (vs, ws)"
    and "length (valueStrings valuesStr) + 1 = length (t_fields td)"
    and "t_alias td \<noteq> []"
  shows "\<exists>rec ws'. parseSingleRecord sch alias valuesStr ln = Inr (rec, ws') \<and>
           length (r_values rec) = length (t_fields td) \<and>
           r_values rec ! k =
             (case f_defaultValue (t_fields td ! k) of
                Some d \<Rightarrow> JStr d
              | None \<Rightarrow>
                  (case t_name td of
                     Some n \<Rightarrow> if n \<noteq> [] then JStr (toLowerCase n)
                               else JStr (toLowerCase (t_alias td))
                   | None \<Rightarrow> JStr (toLowerCase (t_alias td)))) \<and>
           (\<forall>i < k. r_values rec ! i = backfill (t_fields td ! i) (Some (vs ! i))) \<and>
           (\<forall>i. k < i \<and> i < length (t_fields td) \<longrightarrow>
                r_values rec ! i = backfill (t_fields td ! i) (Some (vs ! (i - 1))))"
proof -
  let ?flds = "t_fields td"
  let ?inf = "inferredType td (?flds ! k)"
  let ?vals = "take k vs @ [?inf] @ drop k vs"
  have n: "length vs + 1 = length ?flds"
    using parseFieldValues_length [OF assms(4)] assms(5) by simp
  have k: "k < length ?flds" using findIndex_Some [OF assms(3)] by simp
  then have kvs: "k \<le> length vs" using n by simp
  have p: "patchType sch td vs = ?vals" using assms(1,3) n by (rule patchType_apply)
  have len: "length ?vals = length ?flds" using n kvs by simp
  have "s_mode sch \<noteq> ''strict'' \<or>
        (\<forall>i < length ?flds. \<not> (isRequired (?flds ! i) \<and> filled ?flds ?vals i = JNull))"
    using assms(1) by simp
  from fill_Inr [OF this, of ln] obtain w where w:
    "mapM_res (fillField sch ln ?flds ?vals) [0 ..< length ?flds]
       = Inr (map (filled ?flds ?vals) [0 ..< length ?flds], w)" by blast
  let ?rec = "\<lparr>r_alias = alias, r_values = map (filled ?flds ?vals) [0 ..< length ?flds],
               r_lineNumber = ln\<rparr>"
  have res: "parseSingleRecord sch alias valuesStr ln = Inr (?rec, ws @ w)"
    unfolding psr_known [OF assms(2,4)] p using assms(1) w by simp
  have at: "r_values ?rec ! i = backfill (?flds ! i) (Some (?vals ! i))" if "i < length ?flds" for i
    using that len by (simp add: filled_def)
  have infne: "?inf \<noteq> JStr [] \<or> f_defaultValue (?flds ! k) = Some []"
    using assms(6) by (auto simp: inferredType_def toLowerCase_def split: option.splits)
  have vk: "?vals ! k = ?inf" using kvs by (simp add: nth_append)
  have bk: "backfill (?flds ! k) (Some ?inf) = ?inf"
    using infne by (auto simp: backfill_def default_or_null_def)
  have "r_values ?rec ! k = ?inf" using at [OF k] vk bk by simp
  then have c1: "r_values ?rec ! k =
             (case f_defaultValue (?flds ! k) of
                Some d \<Rightarrow> JStr d
              | None \<Rightarrow>
                  (case t_name td of
                     Some n \<Rightarrow> if n \<noteq> [] then JStr (toLowerCase n)
                               else JStr (toLowerCase (t_alias td))
                   | None \<Rightarrow> JStr (toLowerCase (t_alias td))))"
    by (simp add: inferredType_def)
  have c2: "\<forall>i < k. r_values ?rec ! i = backfill (?flds ! i) (Some (vs ! i))"
  proof (intro allI impI)
    fix i assume i: "i < k"
    then have "?vals ! i = vs ! i" using kvs by (simp add: nth_append)
    then show "r_values ?rec ! i = backfill (?flds ! i) (Some (vs ! i))"
      using at [of i] i k by simp
  qed
  have c3: "\<forall>i. k < i \<and> i < length ?flds \<longrightarrow>
                r_values ?rec ! i = backfill (?flds ! i) (Some (vs ! (i - 1)))"
  proof (intro allI impI)
    fix i assume i: "k < i \<and> i < length ?flds"
    then obtain j where j: "i = Suc (k + j)" by (metis less_imp_Suc_add)
    have "?vals ! i = (?inf # drop k vs) ! (Suc j)"
      using kvs j by (simp add: nth_append)
    also have "\<dots> = vs ! (k + j)" using kvs i j n by simp
    finally have "?vals ! i = vs ! (i - 1)" using j by simp
    then show "r_values ?rec ! i = backfill (?flds ! i) (Some (vs ! (i - 1)))"
      using at [of i] i by simp
  qed
  have c0: "length (r_values ?rec) = length ?flds" by simp
  show ?thesis using res c0 c1 c2 c3 by blast
qed

theorem C6_type_inference_witness:
  "r_values (fst (projr (parseSingleRecord (ex_schema ''lax'') ''T'' ''1|Bob'' 7))) ! 1 = JStr ''thing'' \<and>
   r_values (fst (projr (parseSingleRecord (ex_schema ''lax'') ''D'' ''1|Bob'' 7))) ! 1 = JStr ''base''"
proof -
  have m: "s_mode (ex_schema ''lax'') \<noteq> ''strict''" by (simp add: ex_schema_def)
  have gT: "getType (ex_schema ''lax'') ''T'' = Some ex_T"
    and gD: "getType (ex_schema ''lax'') ''D'' = Some ex_D"
    by (simp_all add: getType_def ex_schema_def)
  have fT: "findIndex (\<lambda>f. f_name f = ''type'') (t_fields ex_T) = Some 1"
    and fD: "findIndex (\<lambda>f. f_name f = ''type'') (t_fields ex_D) = Some 1"
    by (simp_all add: ex_T_def ex_D_def ex_field_def)
  have pT: "parseFieldValues (ex_schema ''lax'') 7 ''1|Bob'' (Some ex_T)
              = Inr ([JNum 1 0, JStr ''Bob''], [])"
    and pD: "parseFieldValues (ex_schema ''lax'') 7 ''1|Bob'' (Some ex_D)
              = Inr ([JNum 1 0, JStr ''Bob''], [])" by code_simp+
  have lT: "length (valueStrings ''1|Bob'') + 1 = length (t_fields ex_T)"
    and lD: "length (valueStrings ''1|Bob'') + 1 = length (t_fields ex_D)" by code_simp+
  have aT: "t_alias ex_T \<noteq> []" and aD: "t_alias ex_D \<noteq> []" by (simp_all add: ex_T_def ex_D_def)
  have vT: "(case f_defaultValue (t_fields ex_T ! 1) of
                Some d \<Rightarrow> JStr d
              | None \<Rightarrow>
                  (case t_name ex_T of
                     Some n \<Rightarrow> if n \<noteq> [] then JStr (toLowerCase n)
                               else JStr (toLowerCase (t_alias ex_T))
                   | None \<Rightarrow> JStr (toLowerCase (t_alias ex_T)))) = JStr ''thing''"
    by code_simp
  have vD: "(case f_defaultValue (t_fields ex_D ! 1) of
                Some d \<Rightarrow> JStr d
              | None \<Rightarrow>
                  (case t_name ex_D of
                     Some n \<Rightarrow> if n \<noteq> [] then JStr (toLowerCase n)
                               else JStr (toLowerCase (t_alias ex_D))
                   | None \<Rightarrow> JStr (toLowerCase (t_alias ex_D)))) = JStr ''base''"
    by code_simp
  from C6_type_inference [OF m gT fT pT lT aT] obtain r1 w1 where
    r1: "parseSingleRecord (ex_schema ''lax'') ''T'' ''1|Bob'' 7 = Inr (r1, w1)"
      "r_values r1 ! 1 = JStr ''thing''" unfolding vT by blast
  from C6_type_inference [OF m gD fD pD lD aD] obtain r2 w2 where
    r2: "parseSingleRecord (ex_schema ''lax'') ''D'' ''1|Bob'' 7 = Inr (r2, w2)"
      "r_values r2 ! 1 = JStr ''base''" unfolding vD by blast
  show ?thesis using r1 r2 by simp
qed

section \<open>The values list of a parsed record\<close>

text \<open>
  Claim C9, as amended. For every successfully parsed record whose alias names a known
  type, the values list has exactly as many entries as the type's field list. When the
  lax inference of the \<open>type\<close> field does not apply (strict mode, or no field named
  \<open>type\<close>, or a token count other than the field count less one), a position without a
  supplied token, or with an empty token, holds the field's default or null, every
  position with a token holds the back-filled value of that token, and tokens past the
  field count are not stored. When the inference applies, every position holds the
  back-filled value of the token list with the inferred value inserted at the position of
  the \<open>type\<close> field, so that the tokens after it are stored one position to the right.
\<close>

theorem C9_record_values:
  assumes "getType sch alias = Some td"
    and "parseSingleRecord sch alias valuesStr ln = Inr (rec, ws')"
  shows "length (r_values rec) = length (t_fields td) \<and>
     (\<exists>vs ws. parseFieldValues sch ln valuesStr (Some td) = Inr (vs, ws) \<and>
        length vs = length (valueStrings valuesStr) \<and>
        ((s_mode sch = ''strict'' \<or> findIndex (\<lambda>f. f_name f = ''type'') (t_fields td) = None
            \<or> length (valueStrings valuesStr) + 1 \<noteq> length (t_fields td)) \<longrightarrow>
          (\<forall>i < length (t_fields td).
             (length (valueStrings valuesStr) \<le> i \<longrightarrow>
                r_values rec ! i = default_or_null (t_fields td ! i)) \<and>
             (i < length (valueStrings valuesStr) \<longrightarrow>
                r_values rec ! i = backfill (t_fields td ! i) (Some (vs ! i))) \<and>
             (i < length (valueStrings valuesStr) \<and> token valuesStr i = [] \<longrightarrow>
                r_values rec ! i = default_or_null (t_fields td ! i)))) \<and>
        (\<forall>k. s_mode sch \<noteq> ''strict'' \<and> findIndex (\<lambda>f. f_name f = ''type'') (t_fields td) = Some k
            \<and> length (valueStrings valuesStr) + 1 = length (t_fields td) \<longrightarrow>
          (\<forall>i < length (t_fields td).
             r_values rec ! i = backfill (t_fields td ! i)
               (Some ((take k vs @ [inferredType td (t_fields td ! k)] @ drop k vs) ! i)))))"
proof -
  let ?flds = "t_fields td"
  let ?n = "length (valueStrings valuesStr)"
  from psr_Inr_values [OF assms] obtain vs ws where
    p: "parseFieldValues sch ln valuesStr (Some td) = Inr (vs, ws)" and
    v: "r_values rec = map (filled ?flds (patchType sch td vs)) [0 ..< length ?flds]" by blast
  have n: "length vs = ?n" using p by (rule parseFieldValues_length)
  have len: "length (r_values rec) = length ?flds" using v by simp
  have at: "r_values rec ! i = filled ?flds (patchType sch td vs) i" if "i < length ?flds" for i
    using that v by simp
  have A: "\<forall>i < length ?flds.
             (?n \<le> i \<longrightarrow> r_values rec ! i = default_or_null (?flds ! i)) \<and>
             (i < ?n \<longrightarrow> r_values rec ! i = backfill (?flds ! i) (Some (vs ! i))) \<and>
             (i < ?n \<and> token valuesStr i = [] \<longrightarrow> r_values rec ! i = default_or_null (?flds ! i))"
    if na: "s_mode sch = ''strict'' \<or> findIndex (\<lambda>f. f_name f = ''type'') ?flds = None
            \<or> ?n + 1 \<noteq> length ?flds"
  proof (intro allI impI conjI)
    have pt: "patchType sch td vs = vs" using na n by (intro patchType_no_apply) simp
    fix i assume i: "i < length ?flds"
    {
      assume "?n \<le> i"
      then show "r_values rec ! i = default_or_null (?flds ! i)"
        using at [OF i] pt n by (simp add: filled_def backfill_None)
    }
    {
      assume "i < ?n"
      then show "r_values rec ! i = backfill (?flds ! i) (Some (vs ! i))"
        using at [OF i] pt n by (simp add: filled_def)
    }
    {
      assume e: "i < ?n \<and> token valuesStr i = []"
      then obtain w where "parseFieldValue sch ln [] (field_at (Some td) i) = Inr (vs ! i, w)"
        using parseFieldValues_nth [OF p, of i] by auto
      then have "vs ! i = default_or_null (?flds ! i)"
        using i by (simp add: field_at_def parseFieldValue_empty)
      then show "r_values rec ! i = default_or_null (?flds ! i)"
        using at [OF i] pt n e by (simp add: filled_def backfill_default)
    }
  qed
  have B: "\<forall>i < length ?flds.
             r_values rec ! i = backfill (?flds ! i)
               (Some ((take k vs @ [inferredType td (?flds ! k)] @ drop k vs) ! i))"
    if ap: "s_mode sch \<noteq> ''strict'' \<and> findIndex (\<lambda>f. f_name f = ''type'') ?flds = Some k
            \<and> ?n + 1 = length ?flds" for k
  proof (intro allI impI)
    have pt: "patchType sch td vs = take k vs @ [inferredType td (?flds ! k)] @ drop k vs"
      using ap n by (intro patchType_apply) simp_all
    have k: "k < length ?flds" using ap findIndex_Some by blast
    have l: "length (take k vs @ [inferredType td (?flds ! k)] @ drop k vs) = length ?flds"
      using ap n k by simp
    fix i assume i: "i < length ?flds"
    show "r_values rec ! i = backfill (?flds ! i)
               (Some ((take k vs @ [inferredType td (?flds ! k)] @ drop k vs) ! i))"
      using at [OF i] i l unfolding pt filled_def by simp
  qed
  show ?thesis using len p n A B by blast
qed

theorem C9_record_values_witness:
  "length (r_values (fst (projr (parseSingleRecord (ex_schema ''lax'') ''U'' ''1|a|b|c'' 7)))) = 2 \<and>
   r_values (fst (projr (parseSingleRecord (ex_schema ''strict'') ''U'' ''1'' 7))) ! 1 = JNull"
proof -
  have gU: "getType (ex_schema m) ''U'' = Some ex_U" for m
    by (simp add: getType_def ex_schema_def)
  have r1: "parseSingleRecord (ex_schema ''lax'') ''U'' ''1|a|b|c'' 7
     = Inr (\<lparr>r_alias = ''U'', r_values = [JNum 1 0, JStr ''a''], r_lineNumber = 7\<rparr>, [])"
    by code_simp
  have r2: "parseSingleRecord (ex_schema ''strict'') ''U'' ''1'' 7
     = Inr (\<lparr>r_alias = ''U'', r_values = [JNum 1 0, JNull], r_lineNumber = 7\<rparr>, [])"
    by code_simp
  have l: "length (t_fields ex_U) = 2" by (simp add: ex_U_def)
  have a: "length (r_values (fst (projr (parseSingleRecord (ex_schema ''lax'') ''U'' ''1|a|b|c'' 7)))) = 2"
    using C9_record_values [OF gU r1] l by (simp add: r1)
  have s: "s_mode (ex_schema ''strict'') = ''strict''" by (simp add: ex_schema_def)
  have n: "length (valueStrings ''1'') \<le> 1" by code_simp
  have d: "default_or_null (t_fields ex_U ! 1) = JNull" by code_simp
  from C9_record_values [OF gU r2] s have
    "\<forall>i < length (t_fields ex_U). length (valueStrings ''1'') \<le> i \<longrightarrow>
       r_values \<lparr>r_alias = ''U'', r_values = [JNum 1 0, JNull], r_lineNumber = 7\<rparr> ! i
         = default_or_null (t_fields ex_U ! i)"
    by blast
  then have "r_values \<lparr>r_alias = ''U'', r_values = [JNum 1 0, JNull], r_lineNumber = 7\<rparr> ! 1
          = default_or_null (t_fields ex_U ! 1)"
    using n l by (metis one_less_numeral_iff semiring_norm(76))
  then have b: "r_values (fst (projr (parseSingleRecord (ex_schema ''strict'') ''U'' ''1'' 7))) ! 1 = JNull"
    using d by (simp add: r2)
  show ?thesis using a b by simp
qed

text \<open>
  In lax mode the record \<open>T(1|Bob)\<close> of the type \<open>T:Thing(id|type|name)\<close> supplies two
  tokens; position 2 has no supplied token and the field \<open>name\<close> has no default, yet
  the stored value there is \<open>Bob\<close>, not null.
\<close>

theorem C9_shifted_token_counterexample:
  "s_mode (ex_schema ''lax'') = ''lax'' \<and>
   getType (ex_schema ''lax'') ''T'' = Some ex_T \<and>
   length (valueStrings ''1|Bob'') = 2 \<and>
   length (t_fields ex_T) = 3 \<and>
   default_or_null (t_fields ex_T ! 2) = JNull \<and>
   parseSingleRecord (ex_schema ''lax'') ''T'' ''1|Bob'' 7
     = Inr (\<lparr>r_alias = ''T'', r_values = [JNum 1 0, JStr ''thing'', JStr ''Bob''],
            r_lineNumber = 7\<rparr>, []) \<and>
   r_values (fst (projr (parseSingleRecord (ex_schema ''lax'') ''T'' ''1|Bob'' 7))) ! 2 \<noteq> JNull"
  by code_simp

section \<open>Facts about the inheritance merge\<close>

lemma list_ex_name: "list_ex (\<lambda>g. f_name g = n) xs \<longleftrightarrow> n \<in> f_name ` set xs"
  by (induction xs) auto

lemma addInherited_Cons:
  "addInherited inh (f # fs) =
     (if list_ex (\<lambda>g. f_name g = f_name f) inh then addInherited inh fs
      else addInherited (inh @ [f]) fs)"
  by (simp add: addInherited_def)

lemma addInherited_keep_first:
  "addInherited inh fs
     = inh @ keep_first_by_name (filter (\<lambda>g. f_name g \<notin> f_name ` set inh) fs)"
proof (induction fs arbitrary: inh)
  case Nil
  show ?case by (simp add: addInherited_def)
next
  case (Cons f fs)
  show ?case
  proof (cases "f_name f \<in> f_name ` set inh")
    case True
    then have "list_ex (\<lambda>g. f_name g = f_name f) inh" by (simp add: list_ex_name)
    then show ?thesis using True Cons [of inh] by (simp add: addInherited_Cons)
  next
    case False
    then have ne: "\<not> list_ex (\<lambda>g. f_name g = f_name f) inh" by (simp add: list_ex_name)
    have "filter (\<lambda>g. f_name g \<notin> f_name ` set (inh @ [f])) fs
        = filter (\<lambda>g. f_name g \<noteq> f_name f) (filter (\<lambda>g. f_name g \<notin> f_name ` set inh) fs)"
      by (auto intro: filter_cong)
    then show ?thesis using False ne Cons [of "inh @ [f]"]
      by (simp add: addInherited_Cons)
  qed
qed

lemma fold_addInherited:
  "fold (\<lambda>pf inh. addInherited inh pf) pfs inh = addInherited inh (concat pfs)"
  by (induction pfs arbitrary: inh) (simp_all add: addInherited_def)

lemma fold_parents_spec:
  "fold (\<lambda>p inh. addInherited inh (F p)) ps [] = spec_inherited (map F ps)"
proof -
  have "fold (\<lambda>p inh. addInherited inh (F p)) ps []
          = fold (\<lambda>pf inh. addInherited inh pf) (map F ps) []"
    by (simp add: fold_map comp_def)
  also have "\<dots> = addInherited [] (concat (map F ps))" by (rule fold_addInherited)
  also have "\<dots> = keep_first_by_name (concat (map F ps))"
    by (simp add: addInherited_keep_first)
  finally show ?thesis by (simp add: spec_inherited_def)
qed

lemma keep_first_names_subset: "set (keep_first_by_name fs) \<subseteq> set fs"
  by (induction fs rule: keep_first_by_name.induct) auto

lemma keep_first_distinct: "distinct (map f_name (keep_first_by_name fs))"
proof (induction fs rule: keep_first_by_name.induct)
  case 1
  show ?case by simp
next
  case (2 f fs)
  have "f_name f \<notin> f_name ` set (keep_first_by_name (filter (\<lambda>g. f_name g \<noteq> f_name f) fs))"
    using keep_first_names_subset [of "filter (\<lambda>g. f_name g \<noteq> f_name f) fs"] by auto
  then show ?case using 2 by simp
qed

lemma repl_name: "f_name (repl own f) = f_name f"
proof (cases "find (\<lambda>ownField. f_name ownField = f_name f) own")
  case None
  then show ?thesis by (simp add: repl_def)
next
  case (Some w)
  then have "f_name w = f_name f" by (auto simp: find_Some_iff)
  then show ?thesis using Some by (simp add: repl_def)
qed

lemma spec_overlay_repl:
  "spec_overlay inh own
     = map (repl own) inh @ filter (\<lambda>ownField. f_name ownField \<notin> f_name ` set inh) own"
  by (simp add: spec_overlay_def repl_def list_ex_name)

lemma find_snoc:
  "find P (xs @ [x]) = (case find P xs of Some y \<Rightarrow> Some y | None \<Rightarrow> if P x then Some x else None)"
  by (induction xs) auto

lemma repl_snoc_other:
  "f_name f \<noteq> f_name w \<Longrightarrow> repl (own @ [w]) f = repl own f"
  by (simp add: repl_def find_snoc split: option.splits)

lemma repl_snoc_same:
  "f_name f = f_name w \<Longrightarrow> f_name w \<notin> f_name ` set own \<Longrightarrow> repl (own @ [w]) f = w"
proof -
  assume a: "f_name f = f_name w" "f_name w \<notin> f_name ` set own"
  have "\<not> (\<exists>x. x \<in> set own \<and> f_name x = f_name f)"
    using a by (metis imageI)
  then have "find (\<lambda>ownField. f_name ownField = f_name f) own = None"
    by (subst find_None_iff) blast
  then show ?thesis using a(1) by (simp add: repl_def find_snoc)
qed

lemma findIndex_append_left:
  assumes "\<exists>x \<in> set xs. P x"
  shows "\<exists>i. findIndex P (xs @ ys) = Some i \<and> i < length xs \<and> P (xs ! i)"
proof -
  have "findIndex P (xs @ ys) \<noteq> None" using assms by (auto simp: findIndex_None)
  then obtain i where i: "findIndex P (xs @ ys) = Some i" by auto
  from findIndex_Some [OF i] have p: "P ((xs @ ys) ! i)" and m: "\<forall>j<i. \<not> P ((xs @ ys) ! j)"
    by simp_all
  have "i < length xs"
  proof (rule ccontr)
    assume "\<not> i < length xs"
    from assms obtain j where j: "j < length xs" "P (xs ! j)" by (auto simp: in_set_conv_nth)
    then have "j < i" using \<open>\<not> i < length xs\<close> by simp
    then have "\<not> P ((xs @ ys) ! j)" using m by blast
    then show False using j by (simp add: nth_append)
  qed
  then show ?thesis using i p by (auto simp: nth_append)
qed

lemma overlayOwn_snoc: "overlayOwn inh (own @ [w]) = ov_step w (overlayOwn inh own)"
  by (simp add: overlayOwn_def ov_step_def)

lemma overlay_spec:
  assumes "distinct (map f_name inh)" and "distinct (map f_name own)"
  shows "overlayOwn inh own = spec_overlay inh own"
  using assms(2)
proof (induction own rule: rev_induct)
  case Nil
  have "map (repl []) inh = inh" by (induction inh) (simp_all add: repl_def)
  then show ?case by (simp add: overlayOwn_def spec_overlay_repl)
next
  case (snoc w own)
  then have IH: "overlayOwn inh own = spec_overlay inh own"
    and fresh: "f_name w \<notin> f_name ` set own" by auto
  let ?M = "map (repl own) inh"
  let ?A = "filter (\<lambda>ownField. f_name ownField \<notin> f_name ` set inh) own"
  have acc: "overlayOwn inh own = ?M @ ?A" using IH by (simp add: spec_overlay_repl)
  show ?case
  proof (cases "f_name w \<in> f_name ` set inh")
    case True
    then have "\<exists>x \<in> set ?M. f_name x = f_name w" by (auto simp: repl_name)
    from findIndex_append_left [OF this, of ?A] obtain i where
      i: "findIndex (\<lambda>f. f_name f = f_name w) (?M @ ?A) = Some i" "i < length inh"
         "f_name (inh ! i) = f_name w" by (auto simp: repl_name)
    have upd: "?M[i := w] = map (repl (own @ [w])) inh"
    proof (rule nth_equalityI)
      show "length (?M[i := w]) = length (map (repl (own @ [w])) inh)" by simp
      fix j assume "j < length (?M[i := w])"
      then have j: "j < length inh" by simp
      show "?M[i := w] ! j = map (repl (own @ [w])) inh ! j"
      proof (cases "j = i")
        case True
        then show ?thesis using j i(3) fresh by (simp add: repl_snoc_same)
      next
        case False
        have "f_name (inh ! j) \<noteq> f_name (inh ! i)"
          using assms(1) False j i(2) by (simp add: distinct_conv_nth)
        then show ?thesis using False j i(3) by (simp add: repl_snoc_other)
      qed
    qed
    have "overlayOwn inh (own @ [w]) = (?M @ ?A)[i := w]"
      using i(1) by (simp add: overlayOwn_snoc acc ov_step_def)
    also have "\<dots> = ?M[i := w] @ ?A" using i(2) by (simp add: list_update_append)
    also have "\<dots> = spec_overlay inh (own @ [w])"
      using True upd by (simp add: spec_overlay_repl)
    finally show ?thesis .
  next
    case False
    have "\<forall>x \<in> set (?M @ ?A). f_name x \<noteq> f_name w"
    proof
      fix x assume "x \<in> set (?M @ ?A)"
      then consider y where "y \<in> set inh" "x = repl own y" | "x \<in> set own" by auto
      then show "f_name x \<noteq> f_name w"
      proof cases
        case 1
        then have "f_name x \<in> f_name ` set inh" by (simp add: repl_name)
        then show ?thesis using False by metis
      next
        case 2
        then have "f_name x \<in> f_name ` set own" by simp
        then show ?thesis using fresh by metis
      qed
    qed
    then have none: "findIndex (\<lambda>f. f_name f = f_name w) (?M @ ?A) = None"
      by (simp add: findIndex_None)
    have same: "map (repl (own @ [w])) inh = ?M"
    proof (intro map_cong refl repl_snoc_other)
      fix x assume "x \<in> set inh"
      then show "f_name x \<noteq> f_name w" using False by (metis imageI)
    qed
    have "overlayOwn inh (own @ [w]) = ?M @ ?A @ [w]"
      using none by (simp add: overlayOwn_snoc acc ov_step_def)
    also have "\<dots> = spec_overlay inh (own @ [w])"
      using False same by (simp add: spec_overlay_repl)
    finally show ?thesis .
  qed
qed

lemma ri_le_refl: "ri_le st st" by (simp add: ri_le_def)

lemma ri_le_trans: "ri_le s1 s2 \<Longrightarrow> ri_le s2 s3 \<Longrightarrow> ri_le s1 s3"
  unfolding ri_le_def by (metis subset_trans)

lemma ri_frame_refl: "ri_frame V st st" by (simp add: ri_frame_def)

lemma ri_frame_trans: "ri_frame V s1 s2 \<Longrightarrow> ri_frame V s2 s3 \<Longrightarrow> ri_frame V s1 s3"
  unfolding ri_frame_def by blast

lemma fold_addInherited_cong:
  "(\<And>p. p \<in> set ps \<Longrightarrow> F p = G p) \<Longrightarrow>
   fold (\<lambda>p inh. addInherited inh (F p)) ps i = fold (\<lambda>p inh. addInherited inh (G p)) ps i"
  by (induction ps arbitrary: i) simp_all

lemma finish_good:
  assumes good: "ri_good tys st1"
    and td: "map_of tys a = Some td"
    and unres: "\<not> ri_resolved st1 a"
    and par: "\<forall>p \<in> set (t_parents td). map_of tys p \<noteq> None \<and> ri_resolved st1 p"
    and inh: "inh = fold (\<lambda>p i. addInherited i (ri_fields st1 p)) (t_parents td) []"
    and st': "st' = st1\<lparr>ri_fields := (ri_fields st1)(a := overlayOwn inh (ri_fields st1 a)),
                       ri_resolved := (ri_resolved st1)(a := True),
                       ri_visited := insert a (ri_visited st1)\<rparr>"
  shows "ri_good tys st'" and "ri_le st1 st'"
proof -
  have F: "ri_fields st' b = (if b = a then overlayOwn inh (ri_fields st1 a) else ri_fields st1 b)"
    and R: "ri_resolved st' b = (b = a \<or> ri_resolved st1 b)"
    and V: "ri_visited st' = insert a (ri_visited st1)" for b
    by (simp_all add: st')
  have own: "ri_fields st1 a = t_fields td" using good td unres by (auto simp: ri_good_def)
  have notR0: "\<not> t_inheritanceResolved td" using good td unres by (auto simp: ri_good_def)
  have res_ne: "ri_resolved st1 b \<Longrightarrow> b \<noteq> a" for b using unres by auto
  show "ri_le st1 st'"
    unfolding ri_le_def using res_ne by (auto simp: F R V)
  show "ri_good tys st'"
    unfolding ri_good_def
  proof (intro conjI allI impI ballI)
    fix b tb assume b: "map_of tys b = Some tb"
    {
      assume "ri_resolved st' b \<and> \<not> t_inheritanceResolved tb"
      then have rb: "ri_resolved st' b" and nb: "\<not> t_inheritanceResolved tb" by simp_all
      show "ri_merged tys st' b tb"
      proof (cases "b = a")
        case True
        then have tb: "tb = td" using b td by simp
        have pne: "\<And>p. p \<in> set (t_parents td) \<Longrightarrow> ri_fields st' p = ri_fields st1 p"
          using par res_ne by (simp add: F)
        have "fold (\<lambda>p i. addInherited i (ri_fields st' p)) (t_parents td) [] = inh"
          unfolding inh using pne by (rule fold_addInherited_cong)
        then show ?thesis
          unfolding ri_merged_def using True tb own par by (simp add: F R)
      next
        case False
        then have "ri_resolved st1 b" using rb by (simp add: R)
        then have m: "ri_merged tys st1 b tb" using good b nb by (auto simp: ri_good_def)
        then have pb: "\<forall>p \<in> set (t_parents tb). map_of tys p \<noteq> None \<and> ri_resolved st1 p"
          by (simp add: ri_merged_def)
        have pne: "\<And>p. p \<in> set (t_parents tb) \<Longrightarrow> ri_fields st' p = ri_fields st1 p"
          using pb res_ne by (simp add: F)
        have "fold (\<lambda>p i. addInherited i (ri_fields st' p)) (t_parents tb) []
                = fold (\<lambda>p i. addInherited i (ri_fields st1 p)) (t_parents tb) []"
          using pne by (rule fold_addInherited_cong)
        then show ?thesis
          using m pb False unfolding ri_merged_def by (simp add: F R)
      qed
    }
    {
      assume "\<not> ri_resolved st' b"
      then have "b \<noteq> a" "\<not> ri_resolved st1 b" by (simp_all add: R)
      then show "ri_fields st' b = t_fields tb" using good b by (auto simp: ri_good_def F)
    }
    {
      assume r0: "t_inheritanceResolved tb"
      then have "ri_resolved st1 b" "ri_fields st1 b = t_fields tb"
        using good b by (auto simp: ri_good_def)
      then show "ri_resolved st' b" "ri_fields st' b = t_fields tb"
        using res_ne [of b] by (simp_all add: F R)
    }
  next
    fix b assume "b \<in> ri_visited st'"
    then show "ri_resolved st' b" using good by (auto simp: V R ri_good_def)
  qed
qed

lemma resolve_inv:
  "resolveType tys visiting a st = Inr st' \<Longrightarrow> ri_good tys st \<Longrightarrow>
     ri_good tys st' \<and> ri_le st st' \<and> ri_frame visiting st st' \<and>
     (map_of tys a \<noteq> None \<longrightarrow> ri_resolved st' a)"
  "resolveParents tys visiting a ps inh st = Inr (inh', st'') \<Longrightarrow> ri_good tys st \<Longrightarrow>
     ri_good tys st'' \<and> ri_le st st'' \<and> ri_frame visiting st st'' \<and>
     (\<forall>p \<in> set ps. map_of tys p \<noteq> None \<and> ri_resolved st'' p) \<and>
     inh' = fold (\<lambda>p i. addInherited i (ri_fields st'' p)) ps inh"
proof (induction tys visiting a st and tys visiting a ps inh st
       arbitrary: st' and inh' st'' rule: resolveType_resolveParents.induct)
  case (1 tys visiting a st)
  note res = "1.prems"(1) and good = "1.prems"(2)
  show ?case
  proof (cases "a \<in> ri_visited st")
    case True
    then have "st' = st" using res by (simp add: resolveType.simps)
    then show ?thesis using good True by (auto simp: ri_le_refl ri_frame_refl ri_good_def)
  next
    case nv: False
    have nvis: "a \<notin> visiting"
    proof
      assume "a \<in> visiting"
      then show False using res nv by (simp add: resolveType.simps)
    qed
    show ?thesis
    proof (cases "map_of tys a")
      case None
      then have "st' = st" using res nv nvis by (simp add: resolveType.simps)
      then show ?thesis using good None by (simp add: ri_le_refl ri_frame_refl)
    next
      case (Some td)
      show ?thesis
      proof (cases "ri_resolved st a")
        case True
        then have "st' = st" using res nv nvis Some by (simp add: resolveType.simps)
        then show ?thesis using good True by (simp add: ri_le_refl ri_frame_refl)
      next
        case False
        obtain inh1 st1 where rp:
          "resolveParents tys (insert a visiting) a (t_parents td) [] st = Inr (inh1, st1)"
          and st': "st' = st1\<lparr>ri_fields := (ri_fields st1)(a := overlayOwn inh1 (ri_fields st1 a)),
                       ri_resolved := (ri_resolved st1)(a := True),
                       ri_visited := insert a (ri_visited st1)\<rparr>"
          using res nv nvis Some False
          by (auto simp: resolveType.simps split: sum.splits)
        from "1.IH" [OF nv nvis Some False rp good]
        have g1: "ri_good tys st1" and le1: "ri_le st st1"
          and fr1: "ri_frame (insert a visiting) st st1"
          and par: "\<forall>p \<in> set (t_parents td). map_of tys p \<noteq> None \<and> ri_resolved st1 p"
          and inh1: "inh1 = fold (\<lambda>p i. addInherited i (ri_fields st1 p)) (t_parents td) []"
          by simp_all
        have unres: "\<not> ri_resolved st1 a" using fr1 False by (auto simp: ri_frame_def)
        note fin = finish_good [OF g1 Some unres par inh1 st']
        have le: "ri_le st st'" using le1 fin(2) by (rule ri_le_trans)
        have fr: "ri_frame visiting st st'"
          unfolding ri_frame_def
        proof (intro ballI impI)
          fix v assume v: "v \<in> visiting" "ri_resolved st' v"
          then have "v \<noteq> a" using nvis by auto
          then have "ri_resolved st1 v" using v(2) by (simp add: st')
          then show "ri_resolved st v" using fr1 v(1) by (auto simp: ri_frame_def)
        qed
        have "ri_resolved st' a" by (simp add: st')
        then show ?thesis using fin(1) le fr by simp
      qed
    qed
  qed
next
  case (2 tys visiting a inh st)
  then show ?case by (simp add: resolveParents.simps ri_le_refl ri_frame_refl)
next
  case (3 tys visiting a p rest inh st)
  note res = "3.prems"(1) and good = "3.prems"(2)
  obtain pt where pt: "map_of tys p = Some pt"
    using res by (cases "map_of tys p") (simp_all add: resolveParents.simps)
  obtain st1 where r1: "resolveType tys visiting p st = Inr st1"
    and r2: "resolveParents tys visiting a rest (addInherited inh (ri_fields st1 p)) st1
               = Inr (inh', st'')"
    using res pt by (auto simp: resolveParents.simps split: sum.splits)
  from "3.IH"(1) [OF pt r1 good]
  have g1: "ri_good tys st1" and le1: "ri_le st st1" and fr1: "ri_frame visiting st st1"
    and rp: "ri_resolved st1 p" using pt by simp_all
  from "3.IH"(2) [OF pt r1 r2 g1]
  have g2: "ri_good tys st''" and le2: "ri_le st1 st''" and fr2: "ri_frame visiting st1 st''"
    and par: "\<forall>q \<in> set rest. map_of tys q \<noteq> None \<and> ri_resolved st'' q"
    and inh': "inh' = fold (\<lambda>q i. addInherited i (ri_fields st'' q)) rest
                        (addInherited inh (ri_fields st1 p))"
    by simp_all
  have same: "ri_fields st'' p = ri_fields st1 p" and rp2: "ri_resolved st'' p"
    using le2 rp by (auto simp: ri_le_def)
  have "inh' = fold (\<lambda>q i. addInherited i (ri_fields st'' q)) (p # rest) inh"
    using inh' same by simp
  then show ?case
    using g2 ri_le_trans [OF le1 le2] ri_frame_trans [OF fr1 fr2] par pt rp2 by simp
qed

lemma resolveAll_inv:
  "resolveAll tys as st = Inr st' \<Longrightarrow> ri_good tys st \<Longrightarrow>
     ri_good tys st' \<and> ri_le st st' \<and> (\<forall>a \<in> set as. map_of tys a \<noteq> None \<longrightarrow> ri_resolved st' a)"
proof (induction as arbitrary: st)
  case Nil
  then show ?case by (simp add: ri_le_refl)
next
  case (Cons a as)
  obtain st1 where r1: "resolveType tys {} a st = Inr st1" and r2: "resolveAll tys as st1 = Inr st'"
    using Cons.prems(1) by (auto split: sum.splits)
  from resolve_inv(1) [OF r1 Cons.prems(2)]
  have g1: "ri_good tys st1" and le1: "ri_le st st1"
    and ra: "map_of tys a \<noteq> None \<longrightarrow> ri_resolved st1 a" by simp_all
  from Cons.IH [OF r2 g1]
  have g2: "ri_good tys st'" and le2: "ri_le st1 st'"
    and rest: "\<forall>b \<in> set as. map_of tys b \<noteq> None \<longrightarrow> ri_resolved st' b" by simp_all
  have "map_of tys a \<noteq> None \<longrightarrow> ri_resolved st' a" using ra le2 by (auto simp: ri_le_def)
  then show ?case using g2 ri_le_trans [OF le1 le2] rest by simp
qed

lemma ri_init_good: "ri_good tys (ri_init tys)"
  by (simp add: ri_good_def ri_init_def)

lemma resolve_succeeds:
  assumes rk: "\<forall>c td p. map_of tys c = Some td \<and> p \<in> set (t_parents td)
                 \<longrightarrow> map_of tys p \<noteq> None \<and> rank p < (rank c :: nat)"
  shows "(\<forall>v \<in> visiting. rank a < rank v) \<Longrightarrow> \<exists>st'. resolveType tys visiting a st = Inr st'"
    and "(\<forall>p \<in> set ps. map_of tys p \<noteq> None \<and> (\<forall>v \<in> visiting. rank p < rank v))
           \<Longrightarrow> \<exists>r. resolveParents tys visiting a ps inh st = Inr r"
  using rk
proof (induction tys visiting a st and tys visiting a ps inh st
       rule: resolveType_resolveParents.induct)
  case (1 tys visiting a st)
  show ?case
  proof (cases "a \<in> ri_visited st")
    case True
    then show ?thesis by (simp add: resolveType.simps)
  next
    case nv: False
    have nvis: "a \<notin> visiting" using "1.prems"(1) by auto
    show ?thesis
    proof (cases "map_of tys a")
      case None
      then show ?thesis using nv nvis by (simp add: resolveType.simps)
    next
      case (Some td)
      show ?thesis
      proof (cases "ri_resolved st a")
        case True
        then show ?thesis using nv nvis Some by (simp add: resolveType.simps)
      next
        case False
        have "\<forall>p \<in> set (t_parents td). map_of tys p \<noteq> None
                 \<and> (\<forall>v \<in> insert a visiting. rank p < rank v)"
        proof (intro ballI conjI)
          fix p assume p: "p \<in> set (t_parents td)"
          then have d: "map_of tys p \<noteq> None" and lt: "rank p < rank a"
            using "1.prems"(2) Some by blast+
          show "map_of tys p \<noteq> None" by (rule d)
          fix v assume "v \<in> insert a visiting"
          then show "rank p < rank v" using lt "1.prems"(1) by (auto intro: less_trans)
        qed
        from "1.IH" [OF nv nvis Some False this "1.prems"(2)]
        obtain r where "resolveParents tys (insert a visiting) a (t_parents td) [] st = Inr r"
          by blast
        then show ?thesis using nv nvis Some False
          by (cases r) (simp add: resolveType.simps)
      qed
    qed
  qed
next
  case (2 tys visiting a inh st)
  show ?case by (simp add: resolveParents.simps)
next
  case (3 tys visiting a p rest inh st)
  obtain pt where pt: "map_of tys p = Some pt" using "3.prems"(1) by auto
  have "\<forall>v \<in> visiting. rank p < rank v" using "3.prems"(1) by simp
  from "3.IH"(1) [OF pt this "3.prems"(2)]
  obtain st1 where r1: "resolveType tys visiting p st = Inr st1" by blast
  have "\<forall>q \<in> set rest. map_of tys q \<noteq> None \<and> (\<forall>v \<in> visiting. rank q < rank v)"
    using "3.prems"(1) by simp
  from "3.IH"(2) [OF pt r1 this "3.prems"(2)]
  obtain r where "resolveParents tys visiting a rest (addInherited inh (ri_fields st1 p)) st1 = Inr r"
    by blast
  then show ?case using pt r1 by (simp add: resolveParents.simps)
qed

lemma resolveAll_succeeds:
  assumes "\<forall>c td p. map_of tys c = Some td \<and> p \<in> set (t_parents td)
                 \<longrightarrow> map_of tys p \<noteq> None \<and> rank p < (rank c :: nat)"
  shows "\<exists>st'. resolveAll tys as st = Inr st'"
proof (induction as arbitrary: st)
  case Nil
  show ?case by simp
next
  case (Cons a as)
  obtain st1 where "resolveType tys {} a st = Inr st1"
    using resolve_succeeds(1) [OF assms, of "{}" a st] by auto
  then show ?case using Cons [of st1] by simp
qed

lemma map_of_map_keyed:
  "map_of (map (\<lambda>(k, v). (k, f k v)) xs) k = map_option (f k) (map_of xs k)"
  by (induction xs) auto

section \<open>C4: the merge of inherited and own fields\<close>

text \<open>
  C4. When every parent named by a type of the schema is defined and no type reaches itself
  through its parents (a rank that decreases from a type to each of its parents), the
  resolution succeeds, every type ends up resolved, and the final field list of a type
  that was not resolved on entry is the overlay of its own fields on the inherited list:
  the parents' resolved fields concatenated in declared parent order, keeping only the first
  field of each name. The overlay is the loop of \<open>overlayOwn\<close>: an own field replaces the
  entry of its name in the list built so far, or is appended. When the own fields have
  pairwise different names this is the overlay of the specification: a same-named own field
  replaces the inherited field in place and every other own field is appended at the end.
  A type that was already resolved on entry keeps its fields.
\<close>

theorem C4_inheritance_merge:
  assumes rk: "\<forall>c td p. getType sch c = Some td \<and> p \<in> set (t_parents td)
                 \<longrightarrow> getType sch p \<noteq> None \<and> rank p < (rank c :: nat)"
  shows "\<exists>sch'. resolveInheritance sch = Inr sch' \<and>
           (\<forall>a td. getType sch a = Some td \<longrightarrow>
              (\<exists>td'. getType sch' a = Some td' \<and> t_inheritanceResolved td' \<and>
                 t_parents td' = t_parents td \<and>
                 (if t_inheritanceResolved td then t_fields td' = t_fields td
                  else t_fields td'
                         = overlayOwn (spec_inherited (map (fieldsOf sch') (t_parents td)))
                             (t_fields td) \<and>
                       (distinct (map f_name (t_fields td)) \<longrightarrow>
                          t_fields td'
                            = spec_overlay (spec_inherited (map (fieldsOf sch') (t_parents td)))
                                (t_fields td)))))"
proof -
  define tys where "tys = s_types sch"
  have rk': "\<forall>c td p. map_of tys c = Some td \<and> p \<in> set (t_parents td)
                 \<longrightarrow> map_of tys p \<noteq> None \<and> rank p < rank c"
    using rk unfolding getType_def tys_def by blast
  obtain st where ra: "resolveAll tys (map fst tys) (ri_init tys) = Inr st"
    using resolveAll_succeeds [OF rk'] by blast
  define sch' where "sch' = sch\<lparr>s_types :=
       map (\<lambda>(a, td). (a, td\<lparr>t_fields := ri_fields st a,
                              t_inheritanceResolved := ri_resolved st a\<rparr>)) tys\<rparr>"
  have res: "resolveInheritance sch = Inr sch'"
    using ra by (simp add: resolveInheritance_def tys_def sch'_def)
  from resolveAll_inv [OF ra ri_init_good]
  have good: "ri_good tys st"
    and all: "\<forall>a \<in> set (map fst tys). map_of tys a \<noteq> None \<longrightarrow> ri_resolved st a"
    by simp_all
  have get': "getType sch' a = map_option (\<lambda>td. td\<lparr>t_fields := ri_fields st a,
                              t_inheritanceResolved := ri_resolved st a\<rparr>) (map_of tys a)" for a
    by (simp add: getType_def sch'_def map_of_map_keyed)
  have fo: "fieldsOf sch' p = ri_fields st p" if "map_of tys p \<noteq> None" for p
    using that by (auto simp: fieldsOf_def get')
  have "\<exists>td'. getType sch' a = Some td' \<and> t_inheritanceResolved td' \<and>
                 t_parents td' = t_parents td \<and>
                 (if t_inheritanceResolved td then t_fields td' = t_fields td
                  else t_fields td'
                         = overlayOwn (spec_inherited (map (fieldsOf sch') (t_parents td)))
                             (t_fields td) \<and>
                       (distinct (map f_name (t_fields td)) \<longrightarrow>
                          t_fields td'
                            = spec_overlay (spec_inherited (map (fieldsOf sch') (t_parents td)))
                                (t_fields td)))"
    if g: "getType sch a = Some td" for a td
  proof -
    have m: "map_of tys a = Some td" using g by (simp add: getType_def tys_def)
    then have "a \<in> set (map fst tys)" by (force dest: map_of_SomeD)
    then have r: "ri_resolved st a" using all m by blast
    have pm: "map (fieldsOf sch') (t_parents td) = map (ri_fields st) (t_parents td)"
      using rk' m fo by (intro map_cong refl) blast
    have flds: "if t_inheritanceResolved td then ri_fields st a = t_fields td
                else ri_fields st a
                       = overlayOwn (spec_inherited (map (fieldsOf sch') (t_parents td)))
                           (t_fields td)"
    proof (cases "t_inheritanceResolved td")
      case True
      then show ?thesis using good m by (simp add: ri_good_def)
    next
      case False
      then have "ri_merged tys st a td" using good m r by (simp add: ri_good_def)
      then show ?thesis using False by (simp add: ri_merged_def fold_parents_spec pm)
    qed
    have "overlayOwn (spec_inherited (map (fieldsOf sch') (t_parents td))) (t_fields td)
            = spec_overlay (spec_inherited (map (fieldsOf sch') (t_parents td))) (t_fields td)"
      if "distinct (map f_name (t_fields td))"
      by (rule overlay_spec [OF _ that]) (simp add: spec_inherited_def keep_first_distinct)
    then show ?thesis using flds r m by (simp add: get' split: if_splits)
  qed
  then show ?thesis using res by blast
qed

text \<open>
  The schema \<open>C<A,B>(b:int|c)\<close>, \<open>A(a|b)\<close>, \<open>B(b:str|z)\<close>: the fields of \<open>C\<close> are
  \<open>a\<close>, \<open>b:int\<close>, \<open>z\<close>, \<open>c\<close>.
\<close>

theorem C4_inheritance_merge_witness:
  "getType ex_diamond ''C'' \<noteq> None \<and>
   \<not> t_inheritanceResolved (the (getType ex_diamond ''C'')) \<and>
   distinct (map f_name (t_fields (the (getType ex_diamond ''C'')))) \<and>
   (\<exists>sch'. resolveInheritance ex_diamond = Inr sch' \<and>
      fieldsOf sch' ''C''
        = spec_overlay (spec_inherited (map (fieldsOf sch') [''A'', ''B'']))
            [ex_field ''b'' (Some ''int'') False None, ex_field ''c'' None False None] \<and>
      map f_name (fieldsOf sch' ''C'') = [''a'', ''b'', ''z'', ''c''] \<and>
      map f_typeExpr (fieldsOf sch' ''C'') = [None, Some ''int'', None, None])"
proof -
  have rk: "\<forall>c td p. getType ex_diamond c = Some td \<and> p \<in> set (t_parents td)
       \<longrightarrow> getType ex_diamond p \<noteq> None \<and> ex_rank p < ex_rank c"
    by (auto simp: getType_def ex_diamond_def new_MaxiSchema_def ex_td_def ex_rank_def
             split: if_splits)
  have gc: "getType ex_diamond ''C'' = Some (ex_td ''C'' [''A'', ''B'']
                [ex_field ''b'' (Some ''int'') False None, ex_field ''c'' None False None])"
    by (simp add: getType_def ex_diamond_def new_MaxiSchema_def)
  have d: "distinct (map f_name
             [ex_field ''b'' (Some ''int'') False None, ex_field ''c'' None False None])"
    by (simp add: ex_field_def)
  from C4_inheritance_merge [OF rk]
  obtain sch' where r: "resolveInheritance ex_diamond = Inr sch'"
    and f: "\<forall>a td. getType ex_diamond a = Some td \<longrightarrow>
              (\<exists>td'. getType sch' a = Some td' \<and> t_inheritanceResolved td' \<and>
                 t_parents td' = t_parents td \<and>
                 (if t_inheritanceResolved td then t_fields td' = t_fields td
                  else t_fields td'
                         = overlayOwn (spec_inherited (map (fieldsOf sch') (t_parents td)))
                             (t_fields td) \<and>
                       (distinct (map f_name (t_fields td)) \<longrightarrow>
                          t_fields td'
                            = spec_overlay (spec_inherited (map (fieldsOf sch') (t_parents td)))
                                (t_fields td))))"
    by blast
  have "\<exists>td'. getType sch' ''C'' = Some td' \<and>
          t_fields td' = spec_overlay (spec_inherited (map (fieldsOf sch') [''A'', ''B'']))
            [ex_field ''b'' (Some ''int'') False None, ex_field ''c'' None False None]"
    using f [rule_format, OF gc] d by (auto simp: ex_td_def)
  then obtain td' where td': "getType sch' ''C'' = Some td'"
    and e: "t_fields td' = spec_overlay (spec_inherited (map (fieldsOf sch') [''A'', ''B'']))
            [ex_field ''b'' (Some ''int'') False None, ex_field ''c'' None False None]"
    by blast
  have e': "fieldsOf sch' ''C''
        = spec_overlay (spec_inherited (map (fieldsOf sch') [''A'', ''B'']))
            [ex_field ''b'' (Some ''int'') False None, ex_field ''c'' None False None]"
    using td' e by (simp add: fieldsOf_def)
  have val: "map_sum id (\<lambda>s. (map f_name (fieldsOf s ''C''), map f_typeExpr (fieldsOf s ''C'')))
               (resolveInheritance ex_diamond)
             = Inr ([''a'', ''b'', ''z'', ''c''], [None, Some ''int'', None, None])"
    by code_simp
  have n: "map f_name (fieldsOf sch' ''C'') = [''a'', ''b'', ''z'', ''c'']"
    and t: "map f_typeExpr (fieldsOf sch' ''C'') = [None, Some ''int'', None, None]"
    using val r by simp_all
  have c1: "getType ex_diamond ''C'' \<noteq> None" by (simp add: gc)
  have c2: "\<not> t_inheritanceResolved (the (getType ex_diamond ''C''))"
    by (simp add: gc ex_td_def)
  have c3: "distinct (map f_name (t_fields (the (getType ex_diamond ''C''))))"
    by (simp add: gc ex_td_def ex_field_def)
  have c4: "\<exists>sch'. resolveInheritance ex_diamond = Inr sch' \<and>
      fieldsOf sch' ''C''
        = spec_overlay (spec_inherited (map (fieldsOf sch') [''A'', ''B'']))
            [ex_field ''b'' (Some ''int'') False None, ex_field ''c'' None False None] \<and>
      map f_name (fieldsOf sch' ''C'') = [''a'', ''b'', ''z'', ''c''] \<and>
      map f_typeExpr (fieldsOf sch' ''C'') = [None, Some ''int'', None, None]"
    by (intro exI [of _ sch'] conjI r e' n t)
  show ?thesis by (intro conjI c1 c2 c3 c4)
qed

text \<open>
  The type \<open>T(a|a:int)\<close> has no parent and two own fields of one name. The resolver
  leaves the single field \<open>a:int\<close>: the second own field replaces the first one, which
  is not an inherited field. The overlay of the specification keeps both.
\<close>

theorem C4_repeated_own_name_counterexample:
  "map_sum id (\<lambda>s. fieldsOf s ''T'') (resolveInheritance ex_twice)
     = Inr [ex_field ''a'' (Some ''int'') False None] \<and>
   spec_overlay (spec_inherited (map (fieldsOf ex_twice) []))
       [ex_field ''a'' None False None, ex_field ''a'' (Some ''int'') False None]
     = [ex_field ''a'' None False None, ex_field ''a'' (Some ''int'') False None] \<and>
   getType ex_twice ''T''
     = Some (ex_td ''T'' [] [ex_field ''a'' None False None, ex_field ''a'' (Some ''int'') False None])"
  by code_simp

section \<open>Imports: what a parse does to the import list and the loading stack\<close>









section \<open>C1: the schema directive and the loading stack\<close>




section \<open>Promotion: the invariant of the worklist loop\<close>

lemma promoteItem_inv:
  assumes inv: "co_inv h allTypes R S st"
    and te: "f_typeExpr field = Some typeExpr"
    and ne: "strip_array typeExpr \<noteq> []"
    and nt: "map_of allTypes (strip_array typeExpr) = Some nestedType"
    and idf: "list_ex (\<lambda>f. f_name f = ''id'') (t_fields nestedType)"
  shows "co_inv h allTypes R S (promoteItem h al field nestedType item st)"
proof (cases "object_ref h item")
  case None
  then show ?thesis using inv by (simp add: promoteItem_def)
next
  case (Some a)
  then have item: "item = DRef a" and ah: "map_of h a \<noteq> None"
    by (auto simp: object_ref_def split: dval.splits if_splits)
  show ?thesis
  proof (cases "a \<in> co_seen st \<or> get_prop h a ''id'' = DUndefined")
    case True
    then show ?thesis using inv Some by (auto simp: promoteItem_def)
  next
    case False
    then have ns: "a \<notin> co_seen st" and idv: "get_prop h a ''id'' \<noteq> DUndefined" by simp_all
    define st' where "st' = st\<lparr>co_records := push_record (t_alias nestedType) item (co_records st),
               co_seen := insert a (co_seen st),
               co_work := co_work st @ [(t_alias nestedType, a)],
               co_promoted := co_promoted st @ [(al, field, a)]\<rparr>"
    have eq: "promoteItem h al field nestedType item st = st'"
      using Some ns idv by (simp add: promoteItem_def st'_def)
    have ta: "targetAlias allTypes field = t_alias nestedType"
      by (simp add: targetAlias_def targetType_def te nt ne)
    have pr: "promotable h allTypes field a"
      using ah idv idf by (simp add: promotable_def targetType_def te nt ne)
    from inv have
      i1: "distinct (co_walked st @ map snd (co_work st))"
      and i2: "set (co_walked st) \<union> snd ` set (co_work st) \<subseteq> co_seen st"
      and i3: "distinct (map (\<lambda>(alias, field, item). item) (co_promoted st))"
      and i4: "(\<lambda>(alias, field, item). item) ` set (co_promoted st) \<subseteq> co_seen st - S"
      and i5: "S \<subseteq> co_seen st"
      and i8: "(\<lambda>(alias, field, item). item) ` set (co_promoted st)
                 \<subseteq> set (co_walked st) \<union> snd ` set (co_work st)"
      and i6: "list_all (\<lambda>(alias, field, item). promotable h allTypes field item) (co_promoted st)"
      and i7: "co_records st
         = fold (\<lambda>(alias, field, item). push_record (targetAlias allTypes field) (DRef item))
             (co_promoted st) R"
      by (simp_all add: co_inv_def)
    have a1: "a \<notin> set (co_walked st)" "a \<notin> snd ` set (co_work st)" using i2 ns by auto
    have a3: "a \<notin> (\<lambda>(alias, field, item). item) ` set (co_promoted st)" using i4 ns by auto
    have a5: "a \<notin> S" using i5 ns by auto
    have j1: "distinct (co_walked st' @ map snd (co_work st'))"
      using i1 a1 by (simp add: st'_def)
    have j2: "set (co_walked st') \<union> snd ` set (co_work st') \<subseteq> co_seen st'"
      using i2 by (auto simp: st'_def)
    have j3: "distinct (map (\<lambda>(alias, field, item). item) (co_promoted st'))"
      using i3 a3 by (simp add: st'_def)
    have j4: "(\<lambda>(alias, field, item). item) ` set (co_promoted st') \<subseteq> co_seen st' - S"
      using i4 a5 by (auto simp: st'_def)
    have j5: "S \<subseteq> co_seen st'" using i5 by (auto simp: st'_def)
    have j8: "(\<lambda>(alias, field, item). item) ` set (co_promoted st')
                 \<subseteq> set (co_walked st') \<union> snd ` set (co_work st')"
      using i8 by (auto simp: st'_def)
    have j6: "list_all (\<lambda>(alias, field, item). promotable h allTypes field item) (co_promoted st')"
      using i6 pr by (simp add: st'_def)
    have j7: "co_records st'
         = fold (\<lambda>(alias, field, item). push_record (targetAlias allTypes field) (DRef item))
             (co_promoted st') R"
      using i7 by (simp add: st'_def ta item)
    show ?thesis unfolding eq co_inv_def by (intro conjI j1 j2 j3 j4 j5 j8 j6 j7)
  qed
qed

lemma fold_inv:
  "(\<And>x s. P s \<Longrightarrow> P (f x s)) \<Longrightarrow> P st \<Longrightarrow> P (fold f xs st)"
  by (induction xs arbitrary: st) simp_all

lemma walkField_inv:
  assumes inv: "co_inv h allTypes R S st"
  shows "co_inv h allTypes R S (walkField h allTypes al ob field st)"
proof -
  have "co_inv h allTypes R S (fold (promoteItem h al field nestedType) items st)"
    if "f_typeExpr field = Some typeExpr"
      and "strip_array typeExpr \<noteq> []"
      and "map_of allTypes (strip_array typeExpr) = Some nestedType"
      and "list_ex (\<lambda>f. f_name f = ''id'') (t_fields nestedType)"
    for typeExpr nestedType items
    by (rule fold_inv [where P = "co_inv h allTypes R S"]) (rule promoteItem_inv [OF _ that], assumption, rule inv)
  then show ?thesis using inv
    by (simp add: walkField_def Let_def split: option.splits)
qed

lemma walkObject_inv:
  assumes inv: "co_inv h allTypes R S st" and ne: "co_work st \<noteq> []"
  shows "co_inv h allTypes R S (walkObject h allTypes st)"
proof -
  obtain al ob where l: "last (co_work st) = (al, ob)" by (cases "last (co_work st)")
  define st1 where "st1 = st\<lparr>co_work := butlast (co_work st), co_walked := co_walked st @ [ob]\<rparr>"
  have w: "co_work st = butlast (co_work st) @ [(al, ob)]"
    using ne l by (metis append_butlast_last_id)
  have d: "distinct (co_walked st @ map snd (butlast (co_work st) @ [(al, ob)]))"
    and sub: "set (co_walked st) \<union> snd ` set (butlast (co_work st) @ [(al, ob)]) \<subseteq> co_seen st"
    using inv w by (simp_all add: co_inv_def)
  have pw: "(\<lambda>(alias, field, item). item) ` set (co_promoted st)
              \<subseteq> set (co_walked st) \<union> snd ` set (butlast (co_work st) @ [(al, ob)])"
    using inv w by (simp add: co_inv_def)
  have "co_inv h allTypes R S st1"
    unfolding co_inv_def
  proof (intro conjI)
    show "distinct (co_walked st1 @ map snd (co_work st1))"
      using d by (auto simp: st1_def)
    show "set (co_walked st1) \<union> snd ` set (co_work st1) \<subseteq> co_seen st1"
      using sub by (auto simp: st1_def)
    show "(\<lambda>(alias, field, item). item) ` set (co_promoted st1)
            \<subseteq> set (co_walked st1) \<union> snd ` set (co_work st1)"
      using pw by (auto simp: st1_def)
  qed (use inv in \<open>simp_all add: co_inv_def st1_def\<close>)
  then have "co_inv h allTypes R S (fold (walkField h allTypes al ob) fs st1)" for fs
    by (rule fold_inv [where P = "co_inv h allTypes R S", rotated]) (rule walkField_inv)
  then show ?thesis using l \<open>co_inv h allTypes R S st1\<close>
    by (simp add: walkObject_def st1_def [symmetric] split: option.splits)
qed

lemma collectLoop_inv:
  "co_inv h allTypes R S st \<Longrightarrow>
     co_inv h allTypes R S (collectLoop h allTypes st) \<and> co_work (collectLoop h allTypes st) = []"
proof (induction h allTypes st rule: collectLoop.induct)
  case (1 h allTypes st)
  show ?case
  proof (cases "co_work st = []")
    case True
    then show ?thesis using "1.prems" by (simp add: collectLoop.simps)
  next
    case False
    have "co_inv h allTypes R S (walkObject h allTypes st)"
      using "1.prems" False by (rule walkObject_inv)
    from "1.IH" [OF False this] show ?thesis using False
      by (subst (1 2) collectLoop.simps) simp
  qed
qed

lemma seedRow_inv: "seed_inv h R S st \<Longrightarrow> seed_inv h R S (seedRow h al x st)"
  by (auto simp: seed_inv_def seedRow_def split: option.splits)

lemma seedRow_mono: "S \<subseteq> co_seen st \<Longrightarrow> S \<subseteq> co_seen (seedRow h al x st)"
  by (auto simp: seedRow_def split: option.splits)

lemma seedRow_covers: "object_ref h x = Some a \<Longrightarrow> a \<in> co_seen (seedRow h al x st)"
  by (simp add: seedRow_def)

lemma seedRows_mono: "S \<subseteq> co_seen st \<Longrightarrow> S \<subseteq> co_seen (fold (seedRow h al) rows st)"
  by (rule fold_inv [where P = "\<lambda>s. S \<subseteq> co_seen s"]) (rule seedRow_mono)

lemma seedRows_covers:
  "x \<in> set rows \<Longrightarrow> object_ref h x = Some a \<Longrightarrow> a \<in> co_seen (fold (seedRow h al) rows st)"
proof (induction rows arbitrary: st)
  case Nil
  then show ?case by simp
next
  case (Cons y rows)
  show ?case
  proof (cases "x = y")
    case True
    have "{a} \<subseteq> co_seen (seedRow h al y st)"
      using seedRow_covers [OF Cons.prems(2)] True by simp
    from seedRows_mono [OF this] show ?thesis by simp
  next
    case False
    then show ?thesis using Cons by simp
  qed
qed

lemma seedAll_mono:
  "S \<subseteq> co_seen (st :: co_state)
     \<Longrightarrow> S \<subseteq> co_seen (fold (\<lambda>(al, rows) st. fold (seedRow h al) rows st) recs st)"
proof (rule fold_inv [where P = "\<lambda>s. S \<subseteq> co_seen s"])
  fix x :: "string \<times> dval list" and s :: co_state
  assume "S \<subseteq> co_seen s"
  then have "S \<subseteq> co_seen (fold (seedRow h (fst x)) (snd x) s)" by (rule seedRows_mono)
  then show "S \<subseteq> co_seen ((case x of (al, rows) \<Rightarrow> \<lambda>st. fold (seedRow h al) rows st) s)"
    by (simp add: case_prod_beta)
qed

lemma seedAll_covers:
  "(al, rows) \<in> set recs \<Longrightarrow> x \<in> set rows \<Longrightarrow> object_ref h x = Some a
     \<Longrightarrow> a \<in> co_seen (fold (\<lambda>(al, rows) st. fold (seedRow h al) rows st) recs st)"
proof (induction recs arbitrary: st)
  case Nil
  then show ?case by simp
next
  case (Cons r recs)
  show ?case
  proof (cases "r = (al, rows)")
    case True
    have "{a} \<subseteq> co_seen (fold (seedRow h al) rows st)"
      using seedRows_covers [OF Cons.prems(2,3)] by simp
    from seedAll_mono [OF this] show ?thesis using True by simp
  next
    case False
    then show ?thesis using Cons by simp
  qed
qed

lemma seedWork_inv: "seed_inv h R S (seedWork h R S)"
  unfolding seedWork_def
proof (rule fold_inv [where P = "seed_inv h R S"])
  show "seed_inv h R S \<lparr>co_records = R, co_seen = S, co_work = [], co_walked = [], co_promoted = []\<rparr>"
    by (simp add: seed_inv_def)
next
  fix x :: "string \<times> dval list" and s
  assume "seed_inv h R S s"
  then have "seed_inv h R S (fold (seedRow h (fst x)) (snd x) s)"
    by (rule fold_inv [where P = "seed_inv h R S", rotated]) (rule seedRow_inv)
  then show "seed_inv h R S ((case x of (al, rows) \<Rightarrow> \<lambda>st. fold (seedRow h al) rows st) s)"
    by (simp add: case_prod_beta)
qed

lemma seedWork_covers:
  assumes "a \<in> top_level R" and "map_of h a \<noteq> None"
  shows "a \<in> co_seen (seedWork h R S)"
proof -
  from assms(1) obtain al rows where "(al, rows) \<in> set R" "DRef a \<in> set rows"
    by (auto simp: top_level_def)
  moreover have "object_ref h (DRef a) = Some a" using assms(2) by (simp add: object_ref_def)
  ultimately show ?thesis unfolding seedWork_def by (rule seedAll_covers)
qed

lemma seed_co_inv: "co_inv h allTypes R (co_seen (seedWork h R S)) (seedWork h R S)"
  using seedWork_inv [of h R S] by (simp add: seed_inv_def co_inv_def)

lemma getIdField_named:
  "list_ex (\<lambda>f. f_name f = ''id'') (t_fields td) \<Longrightarrow> getIdField td \<noteq> None"
proof -
  assume "list_ex (\<lambda>f. f_name f = ''id'') (t_fields td)"
  then have "find (\<lambda>f. f_name f = ''id'') (t_fields td) \<noteq> None"
    by (auto simp: find_None_iff list_ex_iff)
  then show ?thesis by (simp add: getIdField_def split: option.splits)
qed

lemma collect_inv:
  "co_inv h allTypes R (co_seen (seedWork h R S))
     (collectReferencedObjectsIterative h allTypes R S) \<and>
   co_work (collectReferencedObjectsIterative h allTypes R S) = []"
  unfolding collectReferencedObjectsIterative_def
  by (rule collectLoop_inv) (rule seed_co_inv)

lemma seedWork_seen: "S \<subseteq> co_seen (seedWork h R S)"
  using seedWork_inv [of h R S] by (simp add: seed_inv_def)

section \<open>Promotion: what the worklist loop guarantees\<close>

text \<open>
  Whatever the heap, the types, the top-level rows and the initial set of seen objects,
  \<open>collectReferencedObjectsIterative\<close> returns with an empty worklist, and: no object is
  walked twice; no object is promoted twice; every promoted object was reached through a
  field whose declared type, one array suffix stripped, names a known type with a field
  called \<open>id\<close> (so \<open>getIdField\<close> finds an identifier field); the object was not seen
  before (it is neither in the initial set nor a top-level row); it has been walked; and
  the rows to dump are the rows given, followed by the promoted objects pushed to the
  bucket of their type in the order of promotion. About the identifier of a promoted
  object the loop guarantees only what it tests: the property \<open>id\<close> is not \<open>undefined\<close>.
\<close>

theorem collect_promotes_once:
  assumes "st' = collectReferencedObjectsIterative h allTypes recordsToDump seenObjects"
  shows "distinct (co_walked st') \<and>
         distinct (map (\<lambda>(alias, field, item). item) (co_promoted st')) \<and>
         (\<forall>(alias, field, item) \<in> set (co_promoted st').
            (case targetType allTypes field of
               None \<Rightarrow> False
             | Some nestedType \<Rightarrow>
                 list_ex (\<lambda>f. f_name f = ''id'') (t_fields nestedType) \<and>
                 getIdField nestedType \<noteq> None) \<and>
            get_prop h item ''id'' \<noteq> DUndefined \<and>
            item \<notin> seenObjects \<and> item \<notin> top_level recordsToDump \<and>
            item \<in> set (co_walked st')) \<and>
         co_records st'
           = fold (\<lambda>(alias, field, item). push_record (targetAlias allTypes field) (DRef item))
               (co_promoted st') recordsToDump \<and>
         co_work st' = []"
proof -
  define seeded where "seeded = co_seen (seedWork h recordsToDump seenObjects)"
  from collect_inv [of h allTypes recordsToDump seenObjects]
  have inv: "co_inv h allTypes recordsToDump seeded st'" and w: "co_work st' = []"
    by (simp_all add: assms seeded_def)
  from inv have
    i1: "distinct (co_walked st' @ map snd (co_work st'))"
    and i3: "distinct (map (\<lambda>(alias, field, item). item) (co_promoted st'))"
    and i4: "(\<lambda>(alias, field, item). item) ` set (co_promoted st') \<subseteq> co_seen st' - seeded"
    and i8: "(\<lambda>(alias, field, item). item) ` set (co_promoted st')
               \<subseteq> set (co_walked st') \<union> snd ` set (co_work st')"
    and i6: "list_all (\<lambda>(alias, field, item). promotable h allTypes field item) (co_promoted st')"
    and i7: "co_records st'
       = fold (\<lambda>(alias, field, item). push_record (targetAlias allTypes field) (DRef item))
           (co_promoted st') recordsToDump"
    by (simp_all add: co_inv_def)
  have ev: "(case targetType allTypes field of
               None \<Rightarrow> False
             | Some nestedType \<Rightarrow>
                 list_ex (\<lambda>f. f_name f = ''id'') (t_fields nestedType) \<and>
                 getIdField nestedType \<noteq> None) \<and>
            get_prop h item ''id'' \<noteq> DUndefined \<and>
            item \<notin> seenObjects \<and> item \<notin> top_level recordsToDump \<and>
            item \<in> set (co_walked st')"
    if m: "(al, field, item) \<in> set (co_promoted st')" for al field item
  proof -
    have p: "promotable h allTypes field item"
      using i6 m by (auto simp: list_all_iff)
    then have inh: "map_of h item \<noteq> None" and idv: "get_prop h item ''id'' \<noteq> DUndefined"
      by (simp_all add: promotable_def)
    have ty: "case targetType allTypes field of
               None \<Rightarrow> False
             | Some nestedType \<Rightarrow>
                 list_ex (\<lambda>f. f_name f = ''id'') (t_fields nestedType) \<and>
                 getIdField nestedType \<noteq> None"
      using p getIdField_named [of "the (targetType allTypes field)"]
      by (simp add: promotable_def split: option.splits)
    have "item \<in> (\<lambda>(alias, field, item). item) ` set (co_promoted st')"
      using m by force
    then have ns: "item \<notin> seeded" and wk: "item \<in> set (co_walked st')"
      using i4 i8 w by auto
    have "item \<notin> seenObjects"
      using ns seedWork_seen [of seenObjects h recordsToDump] by (auto simp: seeded_def)
    moreover have "item \<notin> top_level recordsToDump"
      using ns inh seedWork_covers [of item recordsToDump h seenObjects]
      by (auto simp: seeded_def)
    ultimately show ?thesis using ty idv wk by simp
  qed
  have d: "distinct (co_walked st')" using i1 by simp
  show ?thesis using ev by (intro conjI d i3 i7 w) auto
qed

text \<open>
  \<open>p0\<close> is the only top-level row. \<open>p1\<close> is referenced by \<open>p0.boss\<close> and by
  \<open>p0.peers\<close>; it is promoted once and walked once.
\<close>

theorem collect_promotes_once_example:
  "distinct (co_walked (collectReferencedObjectsIterative ex_heap [(''P'', ex_P)]
                          [(''P'', [DRef 0])] {})) \<and>
   distinct (map (\<lambda>(alias, field, item). item)
               (co_promoted (collectReferencedObjectsIterative ex_heap [(''P'', ex_P)]
                               [(''P'', [DRef 0])] {}))) \<and>
   co_work (collectReferencedObjectsIterative ex_heap [(''P'', ex_P)] [(''P'', [DRef 0])] {})
     = [] \<and>
   co_walked (collectReferencedObjectsIterative ex_heap [(''P'', ex_P)] [(''P'', [DRef 0])] {})
     = [0, 1, 2] \<and>
   map (\<lambda>(alias, field, item). (alias, f_name field, item))
     (co_promoted (collectReferencedObjectsIterative ex_heap [(''P'', ex_P)]
                     [(''P'', [DRef 0])] {}))
     = [(''P'', ''boss'', 1), (''P'', ''boss'', 2)] \<and>
   co_records (collectReferencedObjectsIterative ex_heap [(''P'', ex_P)] [(''P'', [DRef 0])] {})
     = [(''P'', [DRef 0, DRef 1, DRef 2])]"
proof -
  note t = collect_promotes_once [OF refl, of ex_heap "[(''P'', ex_P)]" "[(''P'', [DRef 0])]" "{}"]
  have d1: "distinct (co_walked (collectReferencedObjectsIterative ex_heap [(''P'', ex_P)]
                          [(''P'', [DRef 0])] {}))"
    and d2: "distinct (map (\<lambda>(alias, field, item). item)
               (co_promoted (collectReferencedObjectsIterative ex_heap [(''P'', ex_P)]
                               [(''P'', [DRef 0])] {})))"
    and w: "co_work (collectReferencedObjectsIterative ex_heap [(''P'', ex_P)]
                       [(''P'', [DRef 0])] {}) = []"
    using t by blast+
  have v1: "co_walked (collectReferencedObjectsIterative ex_heap [(''P'', ex_P)]
                         [(''P'', [DRef 0])] {}) = [0, 1, 2]"
    by code_simp
  have v2: "map (\<lambda>(alias, field, item). (alias, f_name field, item))
     (co_promoted (collectReferencedObjectsIterative ex_heap [(''P'', ex_P)]
                     [(''P'', [DRef 0])] {}))
     = [(''P'', ''boss'', 1), (''P'', ''boss'', 2)]"
    by code_simp
  have v3: "co_records (collectReferencedObjectsIterative ex_heap [(''P'', ex_P)]
                          [(''P'', [DRef 0])] {}) = [(''P'', [DRef 0, DRef 1, DRef 2])]"
    by code_simp
  show ?thesis by (intro conjI d1 d2 w v1 v2 v3)
qed

section \<open>C2: an object whose identifier is null\<close>

text \<open>
  C2. The claim lets a nested object be promoted only if it carries an identifier value
  that is not null, and the comment above the test reads \<open>Promote only if it has an id
  value\<close>. The test is \<open>item[idField.name] !== undefined\<close>, which holds for \<open>null\<close>. With
  the type \<open>P(id|boss:P|peers:P[])\<close>, the top-level row \<open>p0 = {id: 1, boss: p1}\<close> and
  \<open>p1 = {id: null}\<close>, the object \<open>p1\<close>, whose identifier is null, is promoted through
  \<open>p0.boss\<close> and pushed to the bucket \<open>P\<close>.
\<close>

theorem C2_null_id_promoted:
  "get_prop ex_heap_null 1 ''id'' = DNull \<and>
   map (\<lambda>(alias, field, item). (alias, f_name field, item))
     (co_promoted (collectReferencedObjectsIterative ex_heap_null [(''P'', ex_P)]
                     [(''P'', [DRef 0])] {}))
     = [(''P'', ''boss'', 1)] \<and>
   co_records (collectReferencedObjectsIterative ex_heap_null [(''P'', ex_P)]
                 [(''P'', [DRef 0])] {})
     = [(''P'', [DRef 0, DRef 1])]"
  by code_simp

end
